theory Spec2Isabelle
  imports Main "HOL-Library.Word" "HOL-Library.Char_ord" "HOL-Library.List_Lexorder"
begin

section \<open>Common types\<close>

text \<open>
  Bytes are 8-bit words. Go errors are opaque values; only their identity and whether a
  result is \<open>nil\<close> (\<open>None\<close>) matter to the collector.
\<close>

type_synonym byte = "8 word"

datatype error = Err nat

text \<open>
  Go's \<open>int64\<close> (and \<open>int\<close> on the 64-bit targets) as an \<open>int\<close> with the
  two's-complement wrap-around written out.
\<close>

definition wrap64 :: "int \<Rightarrow> int" where
  "wrap64 x = (x + 2 ^ 63) mod 2 ^ 64 - 2 ^ 63"

definition Second :: int where
  "Second = 1000000000"

definition Minute :: int where
  "Minute = 60 * Second"

section \<open>The calls the collector makes\<close>

text \<open>
  The collector drives collaborators that live outside it: the archive writer behind
  \<open>writeFileHeader\<close> and \<open>finish\<close>, the data sources, \<open>runtime/pprof\<close>,
  \<open>runtime/trace\<close>, the pipe and its pump. The model records every call to one of them,
  with the error it returned, in the order the calls are made. A collaborator is a function
  of the calls made so far; this is the most general deterministic collaborator.
\<close>

datatype sink = PipeWriter | MemBuffer

datatype call =
    CreateHeader string
  | SourceWriteTo string
  | StartCPUProfile sink
  | StopCPUProfile
  | TraceStart
  | TraceStop
  | PipeClose
  | PumpCopy string "int option"
  | BufferCopy string "byte list"
  | Finish

type_synonym event = "call \<times> error option"

text \<open>
  \<open>DataSource\<close> (collector.go): a struct with one function-valued field, which may be
  \<open>nil\<close>. A \<open>*DataSource\<close> is a \<open>DataSource option\<close>.
\<close>

record DataSource =
  WriteTo :: "(event list \<Rightarrow> error option) option"

text \<open>
  \<open>ArchiveOptions\<close> (collector.go). Durations are \<open>time.Duration\<close>, an \<open>int64\<close> of
  nanoseconds. \<open>CustomDataSources\<close> is a Go map; the association list gives the keys in
  the (unspecified) order in which \<open>range\<close> visits them.
\<close>

record ArchiveOptions =
  CPUProfileDuration :: int
  CPUProfileByteTarget :: int
  ExecutionTraceDuration :: int
  ExecutionTraceByteTarget :: int
  CustomDataSources :: "(string \<times> DataSource option) list"

section \<open>The size-limit trigger writer (collector.go, limitTriggerWriter)\<close>

text \<open>
  The wrapped writer \<open>wr\<close> answers each \<open>Write\<close> with a count and an error, as a
  function of the writes forwarded to it so far. \<open>fn\<close> is the cancellation callback; the
  field \<open>fn_set\<close> says whether it is still non-nil. The model records what is forwarded
  to \<open>wr\<close> and every invocation of \<open>fn\<close>.
\<close>

datatype lw_event = WrWrite "byte list" | FnCall

record limitTriggerWriter =
  wr :: "lw_event list \<Rightarrow> byte list \<Rightarrow> int \<times> error option"
  fn_set :: bool
  remaining :: int
  lw_trace :: "lw_event list"

definition lw_Write :: "limitTriggerWriter \<Rightarrow> byte list \<Rightarrow> (int \<times> error option) \<times> limitTriggerWriter" where
  "lw_Write lw p =
    (let (n, err) = wr lw (lw_trace lw) p;
         lw1 = lw\<lparr>lw_trace := lw_trace lw @ [WrWrite p]\<rparr>;
         lw2 = lw1\<lparr>remaining := wrap64 (remaining lw1 - n)\<rparr>;
         lw3 = (if remaining lw2 \<le> 0 \<and> fn_set lw2
                then lw2\<lparr>lw_trace := lw_trace lw2 @ [FnCall], fn_set := False\<rparr>
                else lw2)
     in ((n, err), lw3))"

text \<open>A sequence of writes through the decorator; the results of the writes are collected.\<close>

fun lw_Writes :: "limitTriggerWriter \<Rightarrow> byte list list \<Rightarrow> (int \<times> error option) list \<times> limitTriggerWriter" where
  "lw_Writes lw [] = ([], lw)"
| "lw_Writes lw (p # ps) =
     (let (r, lw1) = lw_Write lw p;
          (rs, lw2) = lw_Writes lw1 ps
      in (r # rs, lw2))"

text \<open>
  \<open>addTimeBasedProfile\<close> builds the decorator with the target size as the budget and
  \<open>cancel\<close> as the callback.
\<close>

definition new_limitTriggerWriter :: "(lw_event list \<Rightarrow> byte list \<Rightarrow> int \<times> error option) \<Rightarrow> int \<Rightarrow> limitTriggerWriter" where
  "new_limitTriggerWriter w targetSize =
     \<lparr>wr = w, fn_set = True, remaining = targetSize, lw_trace = []\<rparr>"

text \<open>
  The contract of \<open>io.Writer\<close>: \<open>Write\<close> returns \<open>0 \<le> n \<le> len(p)\<close>.
\<close>

definition io_Writer_contract :: "(lw_event list \<Rightarrow> byte list \<Rightarrow> int \<times> error option) \<Rightarrow> bool" where
  "io_Writer_contract w = (\<forall>h p. 0 \<le> fst (w h p) \<and> fst (w h p) \<le> int (length p))"

text \<open>
  What the specification asks of the trace, in its own words: every write is forwarded,
  and the callback is invoked at the first write after which the cumulative forwarded
  byte count reaches or exceeds the watermark. \<open>acc\<close> is the count before the write.
\<close>

fun trigger_spec :: "int \<Rightarrow> int \<Rightarrow> (byte list \<times> int) list \<Rightarrow> lw_event list" where
  "trigger_spec target acc [] = []"
| "trigger_spec target acc ((p, n) # rest) =
     WrWrite p # (if acc < target \<and> target \<le> acc + n then [FnCall] else [])
       @ trigger_spec target (acc + n) rest"

definition fn_calls :: "lw_event list \<Rightarrow> nat" where
  "fn_calls evs = length (filter (\<lambda>e. e = FnCall) evs)"

fun forwarded :: "lw_event list \<Rightarrow> byte list list" where
  "forwarded [] = []"
| "forwarded (WrWrite p # evs) = p # forwarded evs"
| "forwarded (FnCall # evs) = forwarded evs"

section \<open>The periodic scheduler (periodic.go)\<close>

text \<open>
  \<open>math/rand\<close> is a collaborator. Its generator is a stream of raw draws and a position;
  \<open>Intn\<close> and \<open>Int63n\<close> panic (\<open>None\<close>) unless \<open>n > 0\<close> and otherwise return a value
  of \<open>[0, n)\<close>. Every sequence of results the real generator can give is the image of
  some stream of draws.
\<close>

record Rand =
  draws :: "nat \<Rightarrow> nat"
  pos :: nat

definition Int63n :: "Rand \<Rightarrow> int \<Rightarrow> (int \<times> Rand) option" where
  "Int63n g n =
     (if n \<le> 0 then None
      else Some (int (draws g (pos g)) mod n, g\<lparr>pos := Suc (pos g)\<rparr>))"

definition Intn :: "Rand \<Rightarrow> int \<Rightarrow> (int \<times> Rand) option" where
  "Intn g n =
     (if n \<le> 0 then None
      else Some (int (draws g (pos g)) mod n, g\<lparr>pos := Suc (pos g)\<rparr>))"

record runner =
  rng :: Rand
  nextExecTrace :: int

definition defaultProfileInterval :: int where
  "defaultProfileInterval = 2 * Minute"

definition execTraceMaxPeriod :: int where
  "execTraceMaxPeriod = 100"

text \<open>\<open>var opts autoprof.ArchiveOptions\<close>: the zero value.\<close>

definition zero_ArchiveOptions :: ArchiveOptions where
  "zero_ArchiveOptions =
     \<lparr>CPUProfileDuration = 0, CPUProfileByteTarget = 0, ExecutionTraceDuration = 0,
      ExecutionTraceByteTarget = 0, CustomDataSources = []\<rparr>"

definition options :: "runner \<Rightarrow> int \<Rightarrow> (ArchiveOptions \<times> runner) option" where
  "options r i =
    (let opts = zero_ArchiveOptions;
         opts = opts\<lparr>CPUProfileDuration := 5 * Second\<rparr>;
         opts = opts\<lparr>CPUProfileByteTarget := 1000000\<rparr>
     in case (if nextExecTrace r = i
              then (case Intn (rng r) execTraceMaxPeriod of
                      None \<Rightarrow> None
                    | Some (v, g) \<Rightarrow>
                        Some (opts\<lparr>ExecutionTraceDuration := 1 * Second\<rparr>,
                              r\<lparr>rng := g, nextExecTrace := wrap64 (i + 1 + v)\<rparr>))
              else Some (opts, r)) of
          None \<Rightarrow> None
        | Some (opts, r) \<Rightarrow>
            (let opts = opts\<lparr>ExecutionTraceByteTarget := 10000000\<rparr>;
                 opts = (if i = 0
                         then opts\<lparr>CPUProfileDuration := 0, ExecutionTraceDuration := 0\<rparr>
                         else opts)
             in Some (opts, r)))"

text \<open>
  \<open>delay\<close> returns the duration it arms the timer with (the sleep can end earlier when
  the context is cancelled) and the runner with its generator advanced.
\<close>

definition delay :: "runner \<Rightarrow> int \<Rightarrow> (int \<times> runner) option" where
  "delay r i =
    (let max = defaultProfileInterval;
         maxTrim = (if i > 0 then max div 5 else max)
     in case Int63n (rng r) maxTrim of
          None \<Rightarrow> None
        | Some (trim, g) \<Rightarrow> Some (max - trim, r\<lparr>rng := g\<rparr>))"

section \<open>The collector (collector.go)\<close>

text \<open>
  The struct \<open>Collector\<close>: \<open>writeFileHeader\<close> and \<open>finish\<close> are function-valued
  fields, set by \<open>NewZipCollector\<close> to the archive writer's \<open>CreateHeader\<close> and
  \<open>Close\<close>; here they answer with the error they return. \<open>calls\<close> is the record of
  the calls made so far. \<open>cpuProfile\<close> is the local variable of that name of
  \<open>addExecutionTrace\<close>, which its \<open>start\<close> and \<open>stop\<close> closures capture: \<open>None\<close>
  is \<open>nil\<close>, \<open>Some buf\<close> points to a buffer holding \<open>buf\<close>. The field \<open>meta\<close> is
  only read by \<open>metaSource\<close>, whose behaviour is part of the runtime below.
\<close>

record Collector =
  opt :: ArchiveOptions
  writeFileHeader :: "event list \<Rightarrow> string \<Rightarrow> error option"
  finish :: "event list \<Rightarrow> error option"
  addErr :: "error option"
  calls :: "event list"
  cpuProfile :: "byte list option"

definition NewCollector ::
  "ArchiveOptions \<Rightarrow> (event list \<Rightarrow> string \<Rightarrow> error option) \<Rightarrow> (event list \<Rightarrow> error option) \<Rightarrow> Collector" where
  "NewCollector opts wfh fin =
     \<lparr>opt = opts, writeFileHeader = wfh, finish = fin, addErr = None, calls = [],
      cpuProfile = None\<rparr>"

definition record_call :: "call \<Rightarrow> error option \<Rightarrow> Collector \<Rightarrow> Collector" where
  "record_call k r c = c\<lparr>calls := calls c @ [(k, r)]\<rparr>"

text \<open>
  The collaborators of the standard library and the Go runtime, each answering as a
  function of the calls made so far: \<open>json.Marshal\<close> of the metadata, the \<open>Write\<close> of
  the marshalled metadata into its entry, the profiles \<open>pprof.Profiles()\<close> enumerates (by
  name) and their \<open>WriteTo\<close>, \<open>url.PathEscape\<close>, \<open>pprof.StartCPUProfile\<close>, the bytes
  that \<open>pprof.StopCPUProfile\<close> flushes into the profile's writer, \<open>trace.Start\<close>, the
  \<open>Close\<close> of the pipe's write end (which the code reads as an error; that of
  \<open>io.PipeWriter\<close> is always \<open>nil\<close>), and the \<open>io.Copy\<close> of the buffered profile into
  its entry. For the pump there are two: \<open>pipe_Reads\<close> gives the successive results of
  \<open>pr.Read\<close>, that is what the capture writes into the pipe until it has stopped, cut as
  the pump reads it; \<open>pump_Write\<close> is the \<open>Write\<close> of the entry's writer \<open>w\<close>, given
  the chunks it has taken before.
\<close>

record runtime =
  json_Marshal :: "error option"
  entry_Write :: "event list \<Rightarrow> error option"
  Profiles :: "string list"
  profile_WriteTo :: "string \<Rightarrow> event list \<Rightarrow> error option"
  PathEscape :: "string \<Rightarrow> string"
  pprof_StartCPUProfile :: "event list \<Rightarrow> sink \<Rightarrow> error option"
  pprof_StopCPUProfile :: "event list \<Rightarrow> byte list"
  trace_Start :: "event list \<Rightarrow> error option"
  pw_Close :: "event list \<Rightarrow> error option"
  pipe_Reads :: "event list \<Rightarrow> byte list list"
  pump_Write :: "event list \<Rightarrow> byte list list \<Rightarrow> byte list \<Rightarrow> error option"
  buffer_Copy :: "event list \<Rightarrow> error option"

subsection \<open>The built-in data sources\<close>

definition errSource :: "error \<Rightarrow> DataSource option" where
  "errSource err = Some \<lparr>WriteTo = Some (\<lambda>h. Some err)\<rparr>"

definition metaSource :: "runtime \<Rightarrow> DataSource option" where
  "metaSource rt =
     (case json_Marshal rt of
        Some err \<Rightarrow> errSource err
      | None \<Rightarrow> Some \<lparr>WriteTo = Some (\<lambda>h. entry_Write rt h)\<rparr>)"

text \<open>\<open>expvarStyleSource\<close> drops the errors of its writes and returns \<open>nil\<close>.\<close>

definition expvarSource :: "DataSource option" where
  "expvarSource = Some \<lparr>WriteTo = Some (\<lambda>h. None)\<rparr>"

definition pprofSource :: "runtime \<Rightarrow> string \<Rightarrow> DataSource option" where
  "pprofSource rt profile = Some \<lparr>WriteTo = Some (profile_WriteTo rt profile)\<rparr>"

subsection \<open>add\<close>

definition add :: "Collector \<Rightarrow> string \<Rightarrow> DataSource option \<Rightarrow> Collector" where
  "add c name source =
     (case source of
        None \<Rightarrow> c
      | Some src \<Rightarrow>
          (case WriteTo src of
             None \<Rightarrow> c
           | Some writeTo \<Rightarrow>
               if addErr c \<noteq> None then c
               else
                 (let herr = writeFileHeader c (calls c) name;
                      c1 = (record_call (CreateHeader name) herr c)\<lparr>addErr := herr\<rparr>
                  in if addErr c1 \<noteq> None then c1
                     else
                       (let werr = writeTo (calls c1)
                        in (record_call (SourceWriteTo name) werr c1)\<lparr>addErr := werr\<rparr>))))"

subsection \<open>Time-bounded captures\<close>

text \<open>
  The loop of \<open>io.Copy(w, pr)\<close>, which the pump goroutine runs: it reads from the pipe and
  writes what it has read to \<open>w\<close>, until the pipe is at its end or a write fails (a short
  write is a failure, \<open>io.ErrShortWrite\<close>). A read of no bytes writes nothing. The result
  is the error and the reads that were never made.
\<close>

fun io_Copy ::
  "(byte list list \<Rightarrow> byte list \<Rightarrow> error option) \<Rightarrow> byte list list \<Rightarrow> byte list list
     \<Rightarrow> error option \<times> byte list list" where
  "io_Copy write written [] = (None, [])"
| "io_Copy write written (p # reads) =
     (if p = [] then io_Copy write written reads
      else (case write written p of
              Some err \<Rightarrow> (Some err, reads)
            | None \<Rightarrow> io_Copy write (written @ [p]) reads))"

text \<open>
  \<open>start\<close> and \<open>stop\<close> are the function arguments of \<open>addTimeBasedProfile\<close>; \<open>start\<close>
  receives the write end of the pipe. The pump goroutine and the wait for the deadline or
  the size trigger are not sequential code. A \<open>Write\<close> into an \<open>io.Pipe\<close> returns only
  when the read end has taken all of its bytes, and \<open>stop\<close> returns only when the capture
  has written everything out (\<open>pprof.StopCPUProfile\<close> waits for the profile's writer,
  \<open>trace.Stop\<close> for the trace's reader). So when the pump's copy ends on a failed write
  with reads still to make, the capture stays blocked in its \<open>Write\<close>, \<open>stop\<close> does not
  return and neither does \<open>addTimeBasedProfile\<close>: the result is \<open>None\<close>. When the pump
  has read everything, the model records \<open>stop\<close>, the close of the pipe and the result of
  the pump's copy, which the code reads after \<open>wg.Wait()\<close>, in that order. The copy is
  recorded with the budget of the \<open>limitTriggerWriter\<close> that wraps the entry's writer, if
  one does.
\<close>

definition addTimeBasedProfile ::
  "runtime \<Rightarrow> Collector \<Rightarrow> string \<Rightarrow> int \<Rightarrow> (sink \<Rightarrow> Collector \<Rightarrow> error option \<times> Collector)
     \<Rightarrow> (Collector \<Rightarrow> Collector) \<Rightarrow> (error option \<times> Collector) option" where
  "addTimeBasedProfile rt c name targetSize start stop =
     (let (err, c1) = start PipeWriter c
      in if err \<noteq> None then Some (None, c1)
         else
           (let herr = writeFileHeader c1 (calls c1) name;
                c2 = record_call (CreateHeader name) herr c1
            in if herr \<noteq> None then Some (herr, c2)
               else
                 (let w = (if targetSize > 0 then Some targetSize else None);
                      (copyErr, unread) = io_Copy (pump_Write rt (calls c2)) [] (pipe_Reads rt (calls c2))
                  in if unread \<noteq> [] then None
                     else
                       (let c3 = stop c2;
                            closeErr = pw_Close rt (calls c3);
                            c4 = record_call PipeClose closeErr c3;
                            c5 = record_call (PumpCopy name w) copyErr c4;
                            err = copyErr;
                            err = (if err = None then closeErr else err)
                        in Some (err, c5)))))"

definition StartCPUProfile_call :: "runtime \<Rightarrow> sink \<Rightarrow> Collector \<Rightarrow> error option \<times> Collector" where
  "StartCPUProfile_call rt w c =
     (let err = pprof_StartCPUProfile rt (calls c) w
      in (err, record_call (StartCPUProfile w) err c))"

definition StopCPUProfile_call :: "runtime \<Rightarrow> Collector \<Rightarrow> Collector" where
  "StopCPUProfile_call rt c = record_call StopCPUProfile None c"

definition trace_Start_call :: "runtime \<Rightarrow> sink \<Rightarrow> Collector \<Rightarrow> error option \<times> Collector" where
  "trace_Start_call rt w c =
     (let err = trace_Start rt (calls c)
      in (err, record_call TraceStart err c))"

definition trace_Stop_call :: "runtime \<Rightarrow> Collector \<Rightarrow> Collector" where
  "trace_Stop_call rt c = record_call TraceStop None c"

definition addCPUProfile :: "runtime \<Rightarrow> Collector \<Rightarrow> string \<Rightarrow> (error option \<times> Collector) option" where
  "addCPUProfile rt c name =
     addTimeBasedProfile rt c name (CPUProfileByteTarget (opt c))
       (StartCPUProfile_call rt) (StopCPUProfile_call rt)"

text \<open>
  The two closures of \<open>addExecutionTrace\<close> for a bundle with CPU profiles enabled. The
  buffer \<open>buf\<close> starts empty; \<open>StopCPUProfile\<close> flushes the profile into it.
\<close>

definition start_with_profile :: "runtime \<Rightarrow> sink \<Rightarrow> Collector \<Rightarrow> error option \<times> Collector" where
  "start_with_profile rt w c =
     (let (err, c1) = StartCPUProfile_call rt MemBuffer c;
          c2 = (if err = None then c1\<lparr>cpuProfile := Some []\<rparr> else c1)
      in trace_Start_call rt w c2)"

definition stop_with_profile :: "runtime \<Rightarrow> Collector \<Rightarrow> Collector" where
  "stop_with_profile rt c =
     (let c1 = trace_Stop_call rt c
      in case cpuProfile c1 of
           None \<Rightarrow> c1
         | Some buf \<Rightarrow>
             (StopCPUProfile_call rt c1)
               \<lparr>cpuProfile := Some (buf @ pprof_StopCPUProfile rt (calls c1))\<rparr>)"

text \<open>The function literal that computes \<open>profileErr\<close>.\<close>

definition write_profile_during_trace :: "runtime \<Rightarrow> Collector \<Rightarrow> string \<Rightarrow> error option \<times> Collector" where
  "write_profile_during_trace rt c profileName =
     (case cpuProfile c of
        None \<Rightarrow> (None, c)
      | Some buf \<Rightarrow>
          (let herr = writeFileHeader c (calls c) profileName;
               c1 = record_call (CreateHeader profileName) herr c
           in if herr \<noteq> None then (herr, c1)
              else
                (let err = buffer_Copy rt (calls c1)
                 in (err, record_call (BufferCopy profileName buf) err c1))))"

definition addExecutionTrace :: "runtime \<Rightarrow> Collector \<Rightarrow> string \<Rightarrow> string \<Rightarrow> (error option \<times> Collector) option" where
  "addExecutionTrace rt c name profileName =
     (let c0 = c\<lparr>cpuProfile := None\<rparr>;
          start = (if CPUProfileDuration (opt c0) > 0 then start_with_profile rt
                   else trace_Start_call rt);
          stop = (if CPUProfileDuration (opt c0) > 0 then stop_with_profile rt
                  else trace_Stop_call rt)
      in case addTimeBasedProfile rt c0 name (ExecutionTraceByteTarget (opt c0)) start stop of
           None \<Rightarrow> None
         | Some (traceErr, c1) \<Rightarrow>
             (let (profileErr, c2) = write_profile_during_trace rt c1 profileName
              in if traceErr \<noteq> None then Some (traceErr, c2) else Some (profileErr, c2)))"

subsection \<open>Run\<close>

text \<open>
  \<open>c.opt.CustomDataSources[name]\<close>: the first binding of the key, \<open>nil\<close> for a key
  with none.
\<close>

definition lookup_custom :: "(string \<times> DataSource option) list \<Rightarrow> string \<Rightarrow> DataSource option" where
  "lookup_custom m name = (case map_of m name of None \<Rightarrow> None | Some v \<Rightarrow> v)"

text \<open>
  The static additions of \<open>Run\<close>, up to the test of \<open>addErr\<close>. The keys of the map are
  ranged over once each and sorted with \<open>sort.Strings\<close>, bytewise.
\<close>

definition static_phase :: "runtime \<Rightarrow> Collector \<Rightarrow> Collector" where
  "static_phase rt c0 =
     (let c = add c0 ''meta'' (metaSource rt);
          c = add c ''expvar'' expvarSource;
          c = add c ''pprof/heap'' (pprofSource rt ''heap'');
          c = foldl (\<lambda>c name.
                if name \<noteq> ''heap'' then add c (''pprof/'' @ PathEscape rt name) (pprofSource rt name)
                else c) c (Profiles rt);
          custom = sort (remdups (map fst (CustomDataSources (opt c))));
          c = foldl (\<lambda>c name.
                add c (''custom/'' @ PathEscape rt name)
                  (lookup_custom (CustomDataSources (opt c)) name)) c custom
      in c)"

text \<open>
  \<open>Run\<close> returns when the captures it makes return: \<open>None\<close> is a run in which one of
  them does not.
\<close>

definition Run :: "runtime \<Rightarrow> Collector \<Rightarrow> (error option \<times> Collector) option" where
  "Run rt c0 =
     (let c = static_phase rt c0
      in if addErr c \<noteq> None then Some (addErr c, c)
         else
           (case (if CPUProfileDuration (opt c) > 0
                  then addCPUProfile rt c ''pprof/profile''
                  else Some (None, c)) of
              None \<Rightarrow> None
            | Some (err, c) \<Rightarrow>
                if err \<noteq> None then Some (err, c)
                else
                  (case (if ExecutionTraceDuration (opt c) > 0
                         then addExecutionTrace rt c ''pprof/trace''
                                ''pprof/profile-during-trace''
                         else Some (None, c)) of
                     None \<Rightarrow> None
                   | Some (err, c) \<Rightarrow>
                       if err \<noteq> None then Some (err, c)
                       else
                         (let ferr = finish c (calls c)
                          in Some (ferr, record_call Finish ferr c)))))"

subsection \<open>Reading the record of calls\<close>

text \<open>The entries of the archive: the names whose header was created, in order.\<close>

fun entries :: "event list \<Rightarrow> string list" where
  "entries [] = []"
| "entries ((CreateHeader name, None) # evs) = name # entries evs"
| "entries (e # evs) = entries evs"

text \<open>A call that was made and returned no error.\<close>

definition succeeded :: "call \<Rightarrow> event list \<Rightarrow> bool" where
  "succeeded k evs = ((k, None) \<in> set evs)"

definition times_called :: "call \<Rightarrow> event list \<Rightarrow> nat" where
  "times_called k evs = length (filter (\<lambda>e. fst e = k) evs)"

text \<open>A source that \<open>add\<close> acts on: neither \<open>nil\<close> nor with a \<open>nil\<close> \<open>WriteTo\<close>.\<close>

definition present :: "DataSource option \<Rightarrow> bool" where
  "present source = (case source of None \<Rightarrow> False | Some src \<Rightarrow> WriteTo src \<noteq> None)"

text \<open>The static additions of \<open>Run\<close> as a list, in the order \<open>Run\<close> makes them.\<close>

definition static_sources :: "runtime \<Rightarrow> ArchiveOptions \<Rightarrow> (string \<times> DataSource option) list" where
  "static_sources rt opts =
     [(''meta'', metaSource rt), (''expvar'', expvarSource),
      (''pprof/heap'', pprofSource rt ''heap'')]
     @ map (\<lambda>name. (''pprof/'' @ PathEscape rt name, pprofSource rt name))
         (filter (\<lambda>name. name \<noteq> ''heap'') (Profiles rt))
     @ map (\<lambda>name. (''custom/'' @ PathEscape rt name, lookup_custom (CustomDataSources opts) name))
         (sort (remdups (map fst (CustomDataSources opts))))"

fun add_all :: "Collector \<Rightarrow> (string \<times> DataSource option) list \<Rightarrow> Collector" where
  "add_all c [] = c"
| "add_all c ((name, source) # rest) = add_all (add c name source) rest"

text \<open>The two calls of a static addition that succeeds.\<close>

definition static_events :: "string \<Rightarrow> event list" where
  "static_events name = [(CreateHeader name, None), (SourceWriteTo name, None)]"

text \<open>The calls recorded between two states of the collector.\<close>

definition new_calls :: "Collector \<Rightarrow> Collector \<Rightarrow> event list" where
  "new_calls c c' = drop (length (calls c)) (calls c')"

section \<open>The low-latency buffer (periodic/llbuf.go)\<close>

text \<open>
  The links live in a store: a pointer to a link is an address (\<open>None\<close> is \<open>nil\<close>), and
  \<open>links\<close> maps the addresses allocated so far to the links. \<open>body\<close> is the slice of a
  link, \<open>cap\<close> its capacity (counted from the start of the slice, as Go does: reslicing
  from the front lowers it). \<open>head\<close> and \<open>tail\<close> may point to the same link.
\<close>

record bufferLink =
  next_link :: "nat option"
  body :: "byte list"
  cap :: nat

record linkedListBuffer =
  Size :: int
  head :: "nat option"
  tail :: "nat option"
  links :: "nat \<Rightarrow> bufferLink option"
  allocated :: nat

text \<open>\<open>&linkedListBuffer{Size: size}\<close>: no link yet.\<close>

definition new_linkedListBuffer :: "int \<Rightarrow> linkedListBuffer" where
  "new_linkedListBuffer sz =
     \<lparr>Size = sz, head = None, tail = None, links = (\<lambda>a. None), allocated = 0\<rparr>"

definition defaultSize :: int where
  "defaultSize = 16384"

text \<open>\<open>newLink\<close> allocates a link at a fresh address and returns the address.\<close>

definition newLink :: "linkedListBuffer \<Rightarrow> nat \<times> linkedListBuffer" where
  "newLink b =
     (let size' = Size b;
          size' = (if size' \<le> 0 then defaultSize else size');
          a = allocated b
      in (a, b\<lparr>links := (links b)(a \<mapsto> \<lparr>next_link = None, body = [], cap = nat size'\<rparr>),
                allocated := Suc a\<rparr>))"

text \<open>
  One iteration of the loop of \<open>Write\<close>, for a non-empty \<open>p\<close>: the buffer and the rest
  of \<open>p\<close> after it. \<open>None\<close> is the panic of a nil dereference.
\<close>

definition write_step :: "linkedListBuffer \<Rightarrow> byte list \<Rightarrow> (linkedListBuffer \<times> byte list) option" where
  "write_step b p =
     (case tail b of
        None \<Rightarrow> None
      | Some t \<Rightarrow>
          (case links b t of
             None \<Rightarrow> None
           | Some l \<Rightarrow>
               (let start = length (body l);
                    n = min (cap l - start) (length p);
                    b1 = b\<lparr>links := (links b)(t \<mapsto> l\<lparr>body := body l @ take n p\<rparr>)\<rparr>;
                    p1 = drop n p
                in if n = 0
                   then
                     (let (a, b2) = newLink b1
                      in case links b2 t of
                           None \<Rightarrow> None
                         | Some lt \<Rightarrow>
                             Some (b2\<lparr>links := (links b2)(t \<mapsto> lt\<lparr>next_link := Some a\<rparr>),
                                      tail := Some a\<rparr>, p1))
                   else Some (b1, p1))))"

text \<open>The free space of the tail link.\<close>

definition tail_free :: "linkedListBuffer \<Rightarrow> nat" where
  "tail_free b =
     (case tail b of
        None \<Rightarrow> 0
      | Some t \<Rightarrow> (case links b t of None \<Rightarrow> 0 | Some l \<Rightarrow> cap l - length (body l)))"

lemma write_step_decreases:
  assumes "write_step b p = Some (b', p')" and "p \<noteq> []"
  shows "2 * length p' + (if tail_free b' = 0 then 1 else 0)
           < 2 * length p + (if tail_free b = 0 then 1 else 0)"
proof -
  obtain t l where t: "tail b = Some t" and l: "links b t = Some l"
    using assms(1) by (auto simp: write_step_def split: option.splits)
  define n where "n = min (cap l - length (body l)) (length p)"
  show ?thesis
  proof (cases "n = 0")
    case True
    then have full: "cap l - length (body l) = 0"
      using assms(2) by (auto simp: n_def min_def split: if_splits)
    then have f: "tail_free b = 0"
      by (simp add: tail_free_def t l)
    have "0 < (if Size b \<le> 0 then defaultSize else Size b)"
      by (simp add: defaultSize_def)
    then have "tail_free b' \<noteq> 0 \<and> p' = p"
      using assms(1) True
      by (auto simp: write_step_def t l n_def [symmetric] newLink_def tail_free_def Let_def
          split: if_splits option.splits)
    then show ?thesis using f by simp
  next
    case False
    then have "p' = drop n p" "0 < n"
      using assms(1) by (auto simp: write_step_def t l n_def [symmetric] Let_def)
    moreover have "n \<le> length p"
      by (simp add: n_def)
    ultimately show ?thesis by (auto split: if_splits)
  qed
qed

function write_loop :: "linkedListBuffer \<Rightarrow> byte list \<Rightarrow> linkedListBuffer option" where
  "write_loop b p =
     (if p = [] then Some b
      else case write_step b p of
             None \<Rightarrow> None
           | Some (b1, p1) \<Rightarrow> write_loop b1 p1)"
  by pat_completeness auto
termination
proof (relation "measure (\<lambda>(b, p). 2 * length p + (if tail_free b = 0 then 1 else 0))")
  show "wf (measure (\<lambda>(b, p). 2 * length p + (if tail_free b = 0 then 1 else 0)))"
    by simp
next
  fix b :: linkedListBuffer and p x2 :: "byte list" and x b1
  assume "p \<noteq> []" and "write_step b p = Some x" and "(b1, x2) = x"
  then show "((b1, x2), (b, p))
      \<in> measure (\<lambda>(b, p). 2 * length p + (if tail_free b = 0 then 1 else 0))"
    using write_step_decreases [of b p b1 x2] by (auto split: if_splits)
qed

declare write_loop.simps [simp del]

text \<open>\<open>Write\<close> returns \<open>len(p)\<close> and a nil error.\<close>

definition Write :: "linkedListBuffer \<Rightarrow> byte list \<Rightarrow> (nat \<times> linkedListBuffer) option" where
  "Write b p =
     (let l = length p;
          b1 = (if head b = None \<and> l > 0
                then (let (a, b') = newLink b;
                          b' = b'\<lparr>tail := Some a\<rparr>
                      in b'\<lparr>head := tail b'\<rparr>)
                else b)
      in case write_loop b1 p of
           None \<Rightarrow> None
         | Some b2 \<Rightarrow> Some (l, b2))"

text \<open>
  \<open>Read\<close> into a slice of length \<open>m\<close>: the bytes copied into it, whether the error is
  \<open>io.EOF\<close>, and the buffer.
\<close>

definition Read :: "linkedListBuffer \<Rightarrow> nat \<Rightarrow> (byte list \<times> bool \<times> linkedListBuffer) option" where
  "Read b m =
     (case head b of
        None \<Rightarrow> Some ([], True, b)
      | Some h \<Rightarrow>
          (case links b h of
             None \<Rightarrow> None
           | Some l \<Rightarrow>
               (let n = min m (length (body l));
                    l1 = l\<lparr>body := drop n (body l), cap := cap l - n\<rparr>;
                    b1 = b\<lparr>links := (links b)(h \<mapsto> l1)\<rparr>;
                    b2 = (if length (body l1) = 0 then b1\<lparr>head := next_link l1\<rparr> else b1)
                in Some (take n (body l), False, b2))))"

text \<open>A sequence of writes, one slice after the other.\<close>

fun Writes :: "linkedListBuffer \<Rightarrow> byte list list \<Rightarrow> linkedListBuffer option" where
  "Writes b [] = Some b"
| "Writes b (p # ps) = (case Write b p of None \<Rightarrow> None | Some (n, b1) \<Rightarrow> Writes b1 ps)"

text \<open>
  Reads into slices of the lengths \<open>ms\<close>, one after the other, until one of them returns
  \<open>io.EOF\<close>: the bytes read, whether \<open>io.EOF\<close> was reached, and the buffer.
\<close>

fun read_until_EOF :: "linkedListBuffer \<Rightarrow> nat list \<Rightarrow> (byte list \<times> bool \<times> linkedListBuffer) option" where
  "read_until_EOF b [] = Some ([], False, b)"
| "read_until_EOF b (m # ms) =
     (case Read b m of
        None \<Rightarrow> None
      | Some (data, eof, b1) \<Rightarrow>
          if eof then Some ([], True, b1)
          else (case read_until_EOF b1 ms of
                  None \<Rightarrow> None
                | Some (out, e, b2) \<Rightarrow> Some (data @ out, e, b2)))"

text \<open>The links reached from a pointer by following \<open>next\<close> to \<open>nil\<close>, and their bytes.\<close>

fun path :: "(nat \<Rightarrow> bufferLink option) \<Rightarrow> nat option \<Rightarrow> nat list \<Rightarrow> bool" where
  "path h p [] = (p = None)"
| "path h p (a # as) =
     (p = Some a \<and> (case h a of None \<Rightarrow> False | Some l \<Rightarrow> path h (next_link l) as))"

definition link_body :: "(nat \<Rightarrow> bufferLink option) \<Rightarrow> nat \<Rightarrow> byte list" where
  "link_body h a = (case h a of None \<Rightarrow> [] | Some l \<Rightarrow> body l)"

definition bodies :: "(nat \<Rightarrow> bufferLink option) \<Rightarrow> nat list \<Rightarrow> byte list" where
  "bodies h as = concat (map (link_body h) as)"

text \<open>
  The buffer is a chain \<open>as\<close> of links: \<open>as\<close> is the path from \<open>head\<close>, its addresses
  are distinct and allocated, and \<open>tail\<close> points to the last of them when there is one.
\<close>

definition chain :: "linkedListBuffer \<Rightarrow> nat list \<Rightarrow> bool" where
  "chain b as =
     (path (links b) (head b) as \<and> distinct as \<and> (\<forall>a\<in>set as. a < allocated b)
      \<and> (as \<noteq> [] \<longrightarrow> tail b = Some (last as)))"

text \<open>The invariant stated in llbuf.go: the links in the list have non-zero body length.\<close>

definition filled :: "linkedListBuffer \<Rightarrow> nat list \<Rightarrow> bool" where
  "filled b as = (\<forall>a\<in>set as. link_body (links b) a \<noteq> [])"

section \<open>The duration parameters of the HTTP handler (handler.go)\<close>

text \<open>
  \<open>float64\<close> and the functions on it that \<open>parseWaitDuration\<close> calls are collaborators,
  over any type \<open>'f\<close> of values: \<open>strconv.ParseFloat(s, 64)\<close> with the value and the error
  it returns, the comparison \<open>v < 0\<close>, and the conversion
  \<open>time.Duration(v * float64(time.Second))\<close> to an \<open>int64\<close> of nanoseconds.
\<close>

record 'f float64_ops =
  ParseFloat :: "string \<Rightarrow> 'f \<times> error option"
  less_zero :: "'f \<Rightarrow> bool"
  seconds_Duration :: "'f \<Rightarrow> int"

text \<open>\<open>strings.HasSuffix\<close> and \<open>strings.TrimSuffix\<close>, on strings of bytes.\<close>

definition HasSuffix :: "string \<Rightarrow> string \<Rightarrow> bool" where
  "HasSuffix s suffix =
     (length suffix \<le> length s \<and> drop (length s - length suffix) s = suffix)"

definition TrimSuffix :: "string \<Rightarrow> string \<Rightarrow> string" where
  "TrimSuffix s suffix =
     (if HasSuffix s suffix then take (length s - length suffix) s else s)"

definition parseWaitDuration :: "'f float64_ops \<Rightarrow> string \<Rightarrow> int" where
  "parseWaitDuration fl s =
     (let seconds = TrimSuffix s ''s'';
          (v, err) = ParseFloat fl seconds
      in if err \<noteq> None \<or> less_zero fl v \<or> s = seconds then 0
         else seconds_Duration fl v)"

section \<open>Concrete runs\<close>

text \<open>
  A runtime in which nothing fails and every capture writes three bytes into its pipe, in
  two writes; an archive writer that accepts every header and closes cleanly, and a custom
  source that writes without error.
\<close>

definition quiet_runtime :: runtime where
  "quiet_runtime =
     \<lparr>json_Marshal = None, entry_Write = (\<lambda>h. None), Profiles = [''goroutine'', ''heap''],
      profile_WriteTo = (\<lambda>name h. None), PathEscape = (\<lambda>name. name),
      pprof_StartCPUProfile = (\<lambda>h w. None), pprof_StopCPUProfile = (\<lambda>h. [1, 2, 3]),
      trace_Start = (\<lambda>h. None), pw_Close = (\<lambda>h. None), pipe_Reads = (\<lambda>h. [[1, 2], [3]]),
      pump_Write = (\<lambda>h written p. None), buffer_Copy = (\<lambda>h. None)\<rparr>"

definition ok_header :: "event list \<Rightarrow> string \<Rightarrow> error option" where
  "ok_header h name = None"

definition ok_finish :: "event list \<Rightarrow> error option" where
  "ok_finish h = None"

definition ok_source :: "DataSource option" where
  "ok_source = Some \<lparr>WriteTo = Some (\<lambda>h. None)\<rparr>"

text \<open>Both captures requested, two custom sources.\<close>

definition full_options :: ArchiveOptions where
  "full_options =
     \<lparr>CPUProfileDuration = Second, CPUProfileByteTarget = 0, ExecutionTraceDuration = Second,
      ExecutionTraceByteTarget = 10, CustomDataSources = [(''b'', ok_source), (''a'', ok_source)]\<rparr>"

text \<open>No capture requested; one custom source, a \<open>DataSource\<close> whose \<open>WriteTo\<close> is nil.\<close>

definition nil_custom_options :: ArchiveOptions where
  "nil_custom_options =
     \<lparr>CPUProfileDuration = 0, CPUProfileByteTarget = 0, ExecutionTraceDuration = 0,
      ExecutionTraceByteTarget = 0, CustomDataSources = [(''a'', Some \<lparr>WriteTo = None\<rparr>)]\<rparr>"

text \<open>A runtime in which the write of the marshalled metadata into its entry fails.\<close>

definition failing_write_runtime :: runtime where
  "failing_write_runtime = quiet_runtime\<lparr>entry_Write := (\<lambda>h. Some (Err 1))\<rparr>"

text \<open>A runtime in which writing the heap profile fails.\<close>

definition failing_heap_runtime :: runtime where
  "failing_heap_runtime =
     quiet_runtime\<lparr>profile_WriteTo := (\<lambda>name h. if name = ''heap'' then Some (Err 3) else None)\<rparr>"

text \<open>An archive writer that refuses the header of the CPU profile.\<close>

definition refuse_profile_header :: "event list \<Rightarrow> string \<Rightarrow> error option" where
  "refuse_profile_header h name = (if name = ''pprof/profile'' then Some (Err 7) else None)"

text \<open>A writer that takes every byte, and three writes through a trigger of budget 3.\<close>

definition accept_all :: "lw_event list \<Rightarrow> byte list \<Rightarrow> int \<times> error option" where
  "accept_all h p = (int (length p), None)"

definition three_writes :: "byte list list" where
  "three_writes = [[1, 2], [3, 4], [5]]"

text \<open>A runner whose generator draws \<open>10^12 + k\<close> at position \<open>k\<close>.\<close>

definition sample_runner :: runner where
  "sample_runner = \<lparr>rng = \<lparr>draws = (\<lambda>k. 1000000000000 + k), pos = 0\<rparr>, nextExecTrace = 0\<rparr>"

text \<open>A runtime in which a CPU profile is already in progress.\<close>

definition busy_runtime :: runtime where
  "busy_runtime = quiet_runtime\<lparr>pprof_StartCPUProfile := (\<lambda>h w. Some (Err 5))\<rparr>"

text \<open>
  Two runtimes in which a write of the pump into the entry fails: the write of the last
  bytes that the capture puts into the pipe, and the write of the first.
\<close>

definition last_write_fails_runtime :: runtime where
  "last_write_fails_runtime =
     quiet_runtime\<lparr>pump_Write := (\<lambda>h written p. if p = [3] then Some (Err 8) else None)\<rparr>"

definition first_write_fails_runtime :: runtime where
  "first_write_fails_runtime =
     quiet_runtime\<lparr>pump_Write := (\<lambda>h written p. if p = [1, 2] then Some (Err 8) else None)\<rparr>"

text \<open>Four writes into a buffer, one of them empty.\<close>

definition sample_writes :: "byte list list" where
  "sample_writes = [[1, 2], [3, 4, 5, 6, 7], [], [8]]"

text \<open>A runtime in which an execution trace is already in progress.\<close>

definition tracing_runtime :: runtime where
  "tracing_runtime = quiet_runtime\<lparr>trace_Start := (\<lambda>h. Some (Err 6))\<rparr>"

text \<open>
  Values of \<open>float64\<close> for the strings parsed below: not a number, an infinity with its
  sign, and the decimal \<open>m \<times> 10\<^sup>e\<close>. \<open>sample_ParseFloat\<close> is \<open>strconv.ParseFloat\<close> on
  five strings and a syntax error elsewhere. \<open>amd64_Duration\<close> is the conversion
  \<open>time.Duration(v * float64(time.Second))\<close> as the amd64 target computes it: the integer
  part of the product when it is an \<open>int64\<close>, and the smallest \<open>int64\<close> for a product that
  is not a number or is out of range (the Go specification leaves the result of such a
  conversion to the implementation).
\<close>

datatype float64 = NaN | Infinity bool | Decimal int int

definition sample_ParseFloat :: "string \<Rightarrow> float64 \<times> error option" where
  "sample_ParseFloat s =
     (if s = ''NaN'' then (NaN, None)
      else if s = ''Inf'' then (Infinity False, None)
      else if s = ''1e10'' then (Decimal 1 10, None)
      else if s = ''1'' then (Decimal 1 0, None)
      else if s = ''-1'' then (Decimal (- 1) 0, None)
      else (Decimal 0 0, Some (Err 22)))"

definition sample_less_zero :: "float64 \<Rightarrow> bool" where
  "sample_less_zero v =
     (case v of NaN \<Rightarrow> False | Infinity negative \<Rightarrow> negative | Decimal m e \<Rightarrow> m < 0)"

definition amd64_Duration :: "float64 \<Rightarrow> int" where
  "amd64_Duration v =
     (case v of
        NaN \<Rightarrow> - (2 ^ 63)
      | Infinity negative \<Rightarrow> - (2 ^ 63)
      | Decimal m e \<Rightarrow>
          (let ns = (if 0 \<le> e + 9 then m * 10 ^ nat (e + 9)
                     else sgn m * (\<bar>m\<bar> div 10 ^ nat (- (e + 9))))
           in if - (2 ^ 63) \<le> ns \<and> ns < 2 ^ 63 then ns else - (2 ^ 63)))"

definition go_amd64 :: "float64 float64_ops" where
  "go_amd64 =
     \<lparr>ParseFloat = sample_ParseFloat, less_zero = sample_less_zero,
      seconds_Duration = amd64_Duration\<rparr>"

section \<open>Properties of the periodic scheduler\<close>

lemma options_first:
  "\<exists>opts r'. options r 0 = Some (opts, r')
     \<and> CPUProfileDuration opts = 0 \<and> ExecutionTraceDuration opts = 0"
  by (simp add: options_def Intn_def execTraceMaxPeriod_def Let_def)

lemma delay_bounds:
  "\<exists>d r'. delay r i = Some (d, r')
     \<and> (if i > 0 then 8 * defaultProfileInterval \<le> 10 * d else 0 \<le> d)
     \<and> d \<le> defaultProfileInterval"
proof -
  let ?D = "120000000000 :: int"
  let ?x = "int (draws (rng r) (pos (rng r)))"
  have D: "defaultProfileInterval = ?D"
    by (simp add: defaultProfileInterval_def Minute_def Second_def)
  have a: "?x mod ?D \<le> ?D"
    by (rule less_imp_le) simp
  have b: "?x mod 24000000000 \<le> 24000000000"
    by (rule less_imp_le) simp
  show ?thesis
  proof (cases "0 < i")
    case True
    then show ?thesis
      using b by (simp add: delay_def Int63n_def D Let_def)
  next
    case False
    then show ?thesis
      using a by (simp add: delay_def Int63n_def D Let_def)
  qed
qed

text \<open>
  C9. For every state of the random number generator (and every value of the trace
  counter), the options of iteration 0 have a CPU-profile duration and an execution-trace
  duration of zero; the timer duration that \<open>delay\<close> computes lies in \<open>[0, D]\<close> for
  iteration 0 and in \<open>[0.8 D, D]\<close> for every later iteration, \<open>D\<close> being
  \<open>defaultProfileInterval\<close>. Both functions return (no panic).
\<close>

theorem C9_first_iteration_and_delay:
  "(\<exists>opts r'. options r 0 = Some (opts, r')
       \<and> CPUProfileDuration opts = 0 \<and> ExecutionTraceDuration opts = 0)
   \<and> (\<exists>d r'. delay r 0 = Some (d, r') \<and> 0 \<le> d \<and> d \<le> defaultProfileInterval)
   \<and> (0 < i \<longrightarrow> (\<exists>d r'. delay r i = Some (d, r')
          \<and> 8 * defaultProfileInterval \<le> 10 * d \<and> d \<le> defaultProfileInterval))"
proof -
  have "\<exists>d r'. delay r 0 = Some (d, r') \<and> 0 \<le> d \<and> d \<le> defaultProfileInterval"
    using delay_bounds [of r 0] by simp
  moreover have "0 < i \<longrightarrow> (\<exists>d r'. delay r i = Some (d, r')
          \<and> 8 * defaultProfileInterval \<le> 10 * d \<and> d \<le> defaultProfileInterval)"
    using delay_bounds [of r i] by auto
  ultimately show ?thesis
    using options_first [of r] by blast
qed

theorem C9_witness:
  "(0::int) < 3
   \<and> (\<exists>d r'. delay sample_runner 3 = Some (d, r')
          \<and> 8 * defaultProfileInterval \<le> 10 * d \<and> d \<le> defaultProfileInterval)"
  using C9_first_iteration_and_delay [of sample_runner 3] by simp

section \<open>Properties of the size-limit trigger writer\<close>

lemma wrap64_id: "- (2 ^ 63) \<le> x \<Longrightarrow> x < 2 ^ 63 \<Longrightarrow> wrap64 x = x"
  by (simp add: wrap64_def)

lemma lw_Write_wr [simp]: "wr (snd (lw_Write lw p)) = wr lw"
  by (simp add: lw_Write_def Let_def split: prod.splits)

text \<open>
  One write. While the callback is set, \<open>remaining\<close> is the budget less the bytes
  forwarded so far and is positive, so the subtraction cannot wrap around; once the
  callback is cleared the budget has been reached.
\<close>

lemma lw_Write_step:
  assumes c: "io_Writer_contract (wr lw)"
    and len: "int (length p) < 2 ^ 63"
    and tgt: "target < 2 ^ 63"
    and acc: "0 \<le> acc"
    and on: "fn_set lw \<longrightarrow> remaining lw = target - acc \<and> acc < target"
    and off: "\<not> fn_set lw \<longrightarrow> target \<le> acc"
    and run: "lw_Write lw p = ((n, err), lw')"
  shows "lw_trace lw' = lw_trace lw @ trigger_spec target acc [(p, n)]"
    and "0 \<le> acc + n"
    and "fn_set lw' \<longrightarrow> remaining lw' = target - (acc + n) \<and> acc + n < target"
    and "\<not> fn_set lw' \<longrightarrow> target \<le> acc + n"
    and "0 \<le> n"
proof -
  have res: "(n, err) = wr lw (lw_trace lw) p"
    using run by (simp add: lw_Write_def Let_def split: prod.splits)
  have n0: "0 \<le> n" and n1: "n \<le> int (length p)"
    using c res by (metis fst_conv io_Writer_contract_def)+
  show "0 \<le> acc + n" using acc n0 by simp
  show "0 \<le> n" by (rule n0)
  have nowrap: "wrap64 (remaining lw - n) = remaining lw - n" if "fn_set lw"
  proof -
    have "remaining lw = target - acc" "acc < target" using on that by auto
    then show ?thesis
      using n0 n1 len tgt acc by (intro wrap64_id) auto
  qed
  show "lw_trace lw' = lw_trace lw @ trigger_spec target acc [(p, n)]"
  proof (cases "fn_set lw")
    case True
    then show ?thesis
      using run on nowrap res [symmetric]
      by (auto simp: lw_Write_def Let_def split: prod.splits if_splits)
  next
    case False
    then show ?thesis
      using run off n0 res [symmetric]
      by (auto simp: lw_Write_def Let_def split: prod.splits if_splits)
  qed
  show "fn_set lw' \<longrightarrow> remaining lw' = target - (acc + n) \<and> acc + n < target"
  proof (cases "fn_set lw")
    case True
    then show ?thesis
      using run on nowrap res [symmetric]
      by (auto simp: lw_Write_def Let_def split: prod.splits if_splits)
  next
    case False
    then show ?thesis
      using run res [symmetric]
      by (auto simp: lw_Write_def Let_def split: prod.splits if_splits)
  qed
  show "\<not> fn_set lw' \<longrightarrow> target \<le> acc + n"
  proof (cases "fn_set lw")
    case True
    then show ?thesis
      using run on nowrap res [symmetric]
      by (auto simp: lw_Write_def Let_def split: prod.splits if_splits)
  next
    case False
    then show ?thesis
      using run off n0 res [symmetric]
      by (auto simp: lw_Write_def Let_def split: prod.splits if_splits)
  qed
qed

lemma lw_Writes_spec:
  assumes c: "io_Writer_contract (wr lw)"
    and len: "\<forall>p\<in>set ps. int (length p) < 2 ^ 63"
    and tgt: "target < 2 ^ 63"
    and acc: "0 \<le> acc"
    and on: "fn_set lw \<longrightarrow> remaining lw = target - acc \<and> acc < target"
    and off: "\<not> fn_set lw \<longrightarrow> target \<le> acc"
    and run: "lw_Writes lw ps = (rs, lw')"
  shows "lw_trace lw' = lw_trace lw @ trigger_spec target acc (zip ps (map fst rs))
         \<and> length rs = length ps \<and> (\<forall>r\<in>set rs. 0 \<le> fst r)"
  using assms
proof (induction ps arbitrary: lw acc rs)
  case Nil
  then show ?case by simp
next
  case (Cons p ps)
  obtain n err lw1 where w: "lw_Write lw p = ((n, err), lw1)"
    by (metis surj_pair)
  obtain rs1 where r1: "lw_Writes lw1 ps = (rs1, lw')" and rs: "rs = (n, err) # rs1"
    using Cons.prems(7) w by (auto split: prod.splits)
  have p: "int (length p) < 2 ^ 63" using Cons.prems(2) by simp
  note st = lw_Write_step [OF Cons.prems(1) p Cons.prems(3) Cons.prems(4) Cons.prems(5) Cons.prems(6) w]
  have wr1: "wr lw1 = wr lw" using lw_Write_wr [of lw p] w by simp
  have n0: "0 \<le> n" by (rule st(5))
  have "lw_trace lw' = lw_trace lw1 @ trigger_spec target (acc + n) (zip ps (map fst rs1))
         \<and> length rs1 = length ps \<and> (\<forall>r\<in>set rs1. 0 \<le> fst r)"
    using Cons.IH [OF _ _ Cons.prems(3) st(2) st(3) st(4) r1] Cons.prems(1,2) wr1 by simp
  then show ?case
    using st(1) rs n0 by simp
qed

lemma trigger_spec_fn_calls:
  "\<forall>x\<in>set xs. 0 \<le> snd x \<Longrightarrow> fn_calls (trigger_spec target acc xs) \<le> 1
    \<and> (target \<le> acc \<longrightarrow> fn_calls (trigger_spec target acc xs) = 0)"
proof (induction xs arbitrary: acc)
  case Nil
  then show ?case by (simp add: fn_calls_def)
next
  case (Cons x xs)
  obtain p n where x: "x = (p, n)" by (cases x)
  have n: "0 \<le> n" using Cons.prems x by simp
  have ih: "fn_calls (trigger_spec target (acc + n) xs) \<le> 1
    \<and> (target \<le> acc + n \<longrightarrow> fn_calls (trigger_spec target (acc + n) xs) = 0)"
    using Cons.IH [of "acc + n"] Cons.prems by simp
  show ?case
    using ih n by (auto simp: x fn_calls_def)
qed

lemma trigger_spec_forwarded:
  "forwarded (trigger_spec target acc xs) = map fst xs"
  by (induction xs arbitrary: acc) auto

text \<open>
  C4. For every sequence of writes through a \<open>limitTriggerWriter\<close> with a positive
  initial budget (the wrapped writer keeping the contract of \<open>io.Writer\<close>, the budget an
  \<open>int64\<close> and each slice of a length that fits Go's \<open>int\<close>): the slices reach the
  wrapped writer unmodified, each once and in order; the callback is invoked at most once;
  it is invoked right after the first write after which the cumulative count of bytes the
  wrapped writer took reaches or exceeds the budget; and the writes after it are forwarded
  like the ones before.
\<close>

theorem C4_limit_trigger:
  assumes "io_Writer_contract w"
    and "0 < target" and "target < 2 ^ 63"
    and "\<forall>p\<in>set ps. int (length p) < 2 ^ 63"
    and "lw_Writes (new_limitTriggerWriter w target) ps = (rs, lw')"
  shows "forwarded (lw_trace lw') = ps
       \<and> fn_calls (lw_trace lw') \<le> 1
       \<and> lw_trace lw' = trigger_spec target 0 (zip ps (map fst rs))
       \<and> length rs = length ps"
proof -
  let ?lw = "new_limitTriggerWriter w target"
  have init: "wr ?lw = w" "fn_set ?lw" "remaining ?lw = target - 0" "lw_trace ?lw = []"
    by (simp_all add: new_limitTriggerWriter_def)
  have spec: "lw_trace lw' = lw_trace ?lw @ trigger_spec target 0 (zip ps (map fst rs))
         \<and> length rs = length ps \<and> (\<forall>r\<in>set rs. 0 \<le> fst r)"
    using assms init by (intro lw_Writes_spec) simp_all
  then have tr: "lw_trace lw' = trigger_spec target 0 (zip ps (map fst rs))"
    and len: "length rs = length ps" and nn: "\<forall>r\<in>set rs. 0 \<le> fst r"
    using init(4) by simp_all
  have "\<forall>x\<in>set (zip ps (map fst rs)). 0 \<le> snd x"
    using nn by (auto dest!: set_zip_rightD)
  then have "fn_calls (lw_trace lw') \<le> 1"
    using trigger_spec_fn_calls [of "zip ps (map fst rs)" target 0] tr by simp
  moreover have "forwarded (lw_trace lw') = ps"
    using tr len by (simp add: trigger_spec_forwarded)
  ultimately show ?thesis
    using tr len by simp
qed

lemma accept_all_contract: "io_Writer_contract accept_all"
  by (simp add: io_Writer_contract_def accept_all_def)

lemma three_writes_run:
  "fst (lw_Writes (new_limitTriggerWriter accept_all 3) three_writes)
     = [(2, None), (2, None), (1, None)]
   \<and> lw_trace (snd (lw_Writes (new_limitTriggerWriter accept_all 3) three_writes))
     = [WrWrite [1, 2], WrWrite [3, 4], FnCall, WrWrite [5]]"
  by (simp add: new_limitTriggerWriter_def three_writes_def lw_Write_def accept_all_def
      wrap64_def Let_def)

theorem C4_witness:
  "io_Writer_contract accept_all
   \<and> forwarded (lw_trace (snd (lw_Writes (new_limitTriggerWriter accept_all 3) three_writes)))
       = three_writes
   \<and> fn_calls (lw_trace (snd (lw_Writes (new_limitTriggerWriter accept_all 3) three_writes))) \<le> 1
   \<and> lw_trace (snd (lw_Writes (new_limitTriggerWriter accept_all 3) three_writes))
       = [WrWrite [1, 2], WrWrite [3, 4], FnCall, WrWrite [5]]"
proof -
  have run: "lw_Writes (new_limitTriggerWriter accept_all 3) three_writes
      = (fst (lw_Writes (new_limitTriggerWriter accept_all 3) three_writes),
         snd (lw_Writes (new_limitTriggerWriter accept_all 3) three_writes))"
    by simp
  have len: "\<forall>p\<in>set three_writes. int (length p) < 2 ^ 63"
    by (simp add: three_writes_def)
  have pos: "(0::int) < 3" "(3::int) < 2 ^ 63"
    by simp_all
  note th = C4_limit_trigger [OF accept_all_contract pos len run]
  show ?thesis
    using th [THEN conjunct1] th [THEN conjunct2, THEN conjunct1]
      three_writes_run [THEN conjunct2] accept_all_contract
    by (intro conjI)
qed

section \<open>Properties of the collector\<close>

subsection \<open>add and the static additions\<close>

lemma add_absent: "\<not> present source \<Longrightarrow> add c name source = c"
  by (auto simp: add_def present_def split: option.splits)

lemma add_failed: "addErr c \<noteq> None \<Longrightarrow> add c name source = c"
  by (auto simp: add_def split: option.splits)

lemma add_fields [simp]:
  "opt (add c name source) = opt c"
  "writeFileHeader (add c name source) = writeFileHeader c"
  "finish (add c name source) = finish c"
  "cpuProfile (add c name source) = cpuProfile c"
  by (auto simp: add_def record_call_def Let_def split: option.splits)

lemma add_ok_calls:
  "present source \<Longrightarrow> addErr (add c name source) = None \<Longrightarrow>
     addErr c = None \<and> calls (add c name source) = calls c @ static_events name"
  by (auto simp: add_def present_def record_call_def Let_def static_events_def
      split: option.splits if_splits)

lemma add_all_failed: "addErr c \<noteq> None \<Longrightarrow> add_all c xs = c"
  by (induction xs arbitrary: c) (auto simp: add_failed)

lemma add_all_append: "add_all c (xs @ ys) = add_all (add_all c xs) ys"
  by (induction xs arbitrary: c) auto

lemma add_all_fields [simp]:
  "opt (add_all c xs) = opt c"
  "writeFileHeader (add_all c xs) = writeFileHeader c"
  "finish (add_all c xs) = finish c"
  "cpuProfile (add_all c xs) = cpuProfile c"
  by (induction xs arbitrary: c) auto

lemma add_all_ok:
  "addErr (add_all c xs) = None \<Longrightarrow>
     addErr c = None \<and>
     calls (add_all c xs) = calls c @ concat (map (\<lambda>x. static_events (fst x)) (filter (\<lambda>x. present (snd x)) xs))"
proof (induction xs arbitrary: c)
  case Nil
  then show ?case by simp
next
  case (Cons x xs)
  obtain name source where x: "x = (name, source)" by (cases x)
  have ih: "addErr (add c name source) = None \<and>
     calls (add_all (add c name source) xs) = calls (add c name source) @ concat (map (\<lambda>x. static_events (fst x)) (filter (\<lambda>x. present (snd x)) xs))"
    using Cons.IH [of "add c name source"] Cons.prems x by simp
  show ?case
  proof (cases "present source")
    case True
    then show ?thesis using ih add_ok_calls [of source c name] x by simp
  next
    case False
    then show ?thesis using ih x by (simp add: add_absent)
  qed
qed

lemma foldl_add_filter:
  "foldl (\<lambda>c name. if P name then add c (f name) (g name) else c) c xs
     = add_all c (map (\<lambda>name. (f name, g name)) (filter P xs))"
  by (induction xs arbitrary: c) auto

lemma foldl_add_custom:
  "foldl (\<lambda>c name. add c (f name) (g (opt c) name)) c xs
     = add_all c (map (\<lambda>name. (f name, g (opt c) name)) xs)"
  by (induction xs arbitrary: c) auto

lemma static_phase_add_all:
  "static_phase rt c = add_all c (static_sources rt (opt c))"
  unfolding static_phase_def static_sources_def Let_def
  using foldl_add_filter [of "\<lambda>name. name \<noteq> ''heap''" "\<lambda>name. ''pprof/'' @ PathEscape rt name" "pprofSource rt"]
    foldl_add_custom [of "\<lambda>name. ''custom/'' @ PathEscape rt name" "\<lambda>opts. lookup_custom (CustomDataSources opts)"]
  by (simp add: add_all_append)

lemma entries_append: "entries (xs @ ys) = entries xs @ entries ys"
  by (induction xs rule: entries.induct) auto

lemma entries_static: "entries (concat (map (\<lambda>x. static_events (fst x)) xs)) = map fst xs"
  by (induction xs) (auto simp: static_events_def)

lemma succeeded_append: "succeeded k (xs @ ys) = (succeeded k xs \<or> succeeded k ys)"
  by (auto simp: succeeded_def)

lemma times_called_append: "times_called k (xs @ ys) = times_called k xs + times_called k ys"
  by (simp add: times_called_def)

subsection \<open>Time-bounded captures\<close>

lemma new_calls_append: "calls c' = calls c @ evs \<Longrightarrow> new_calls c c' = evs"
  by (simp add: new_calls_def)

lemma record_call_fields [simp]:
  "calls (record_call k r c) = calls c @ [(k, r)]"
  "opt (record_call k r c) = opt c"
  "finish (record_call k r c) = finish c"
  "writeFileHeader (record_call k r c) = writeFileHeader c"
  "addErr (record_call k r c) = addErr c"
  "cpuProfile (record_call k r c) = cpuProfile c"
  by (simp_all add: record_call_def)

lemma capture_skipped:
  "start PipeWriter c = (Some e, c1) \<Longrightarrow>
     addTimeBasedProfile rt c name t start stop = Some (None, c1)"
  by (simp add: addTimeBasedProfile_def)

lemma capture_header_failed:
  "start PipeWriter c = (None, c1) \<Longrightarrow> writeFileHeader c1 (calls c1) name = Some e \<Longrightarrow>
     addTimeBasedProfile rt c name t start stop
       = Some (Some e, record_call (CreateHeader name) (Some e) c1)"
  by (simp add: addTimeBasedProfile_def Let_def)

lemma capture_stalled:
  "start PipeWriter c = (None, c1) \<Longrightarrow> writeFileHeader c1 (calls c1) name = None \<Longrightarrow>
     io_Copy (pump_Write rt (calls c1 @ [(CreateHeader name, None)])) []
       (pipe_Reads rt (calls c1 @ [(CreateHeader name, None)])) = (copyErr, p # unread) \<Longrightarrow>
     addTimeBasedProfile rt c name t start stop = None"
  by (simp add: addTimeBasedProfile_def Let_def)

lemma capture_streamed:
  "start PipeWriter c = (None, c1) \<Longrightarrow> writeFileHeader c1 (calls c1) name = None \<Longrightarrow>
     io_Copy (pump_Write rt (calls c1 @ [(CreateHeader name, None)])) []
       (pipe_Reads rt (calls c1 @ [(CreateHeader name, None)])) = (copyErr, []) \<Longrightarrow>
     c3 = stop (record_call (CreateHeader name) None c1) \<Longrightarrow>
     closeErr = pw_Close rt (calls c3) \<Longrightarrow>
     addTimeBasedProfile rt c name t start stop
       = Some ((case copyErr of Some e \<Rightarrow> Some e | None \<Rightarrow> closeErr),
          record_call (PumpCopy name (if t > 0 then Some t else None)) copyErr
            (record_call PipeClose closeErr c3))"
  by (simp add: addTimeBasedProfile_def Let_def split: option.splits)

lemma capture_cases:
  assumes st: "start PipeWriter c = (serr, c1)"
    and run: "addTimeBasedProfile rt c name t start stop = Some (r, c')"
  obtains (skipped) e where "serr = Some e" "r = None" "c' = c1"
  | (header_failed) e where "serr = None" "writeFileHeader c1 (calls c1) name = Some e"
      "r = Some e" "c' = record_call (CreateHeader name) (Some e) c1"
  | (streamed) copyErr c3 closeErr where "serr = None"
      "writeFileHeader c1 (calls c1) name = None"
      "io_Copy (pump_Write rt (calls c1 @ [(CreateHeader name, None)])) []
         (pipe_Reads rt (calls c1 @ [(CreateHeader name, None)])) = (copyErr, [])"
      "c3 = stop (record_call (CreateHeader name) None c1)"
      "closeErr = pw_Close rt (calls c3)"
      "r = (case copyErr of Some e \<Rightarrow> Some e | None \<Rightarrow> closeErr)"
      "c' = record_call (PumpCopy name (if t > 0 then Some t else None)) copyErr
              (record_call PipeClose closeErr c3)"
proof (cases serr)
  case (Some e)
  have "r = None" "c' = c1"
    using capture_skipped [of start c e c1 rt name t stop] st run Some by simp_all
  then show ?thesis using Some by (rule skipped [rotated])
next
  case None
  note s = this
  show ?thesis
  proof (cases "writeFileHeader c1 (calls c1) name")
    case (Some e)
    have "r = Some e" "c' = record_call (CreateHeader name) (Some e) c1"
      using capture_header_failed [of start c c1 name e rt t stop] st run s Some by simp_all
    then show ?thesis using s Some by (intro header_failed [of e])
  next
    case None
    define c3 where "c3 = stop (record_call (CreateHeader name) None c1)"
    define closeErr where "closeErr = pw_Close rt (calls c3)"
    obtain copyErr unread where io:
      "io_Copy (pump_Write rt (calls c1 @ [(CreateHeader name, None)])) []
         (pipe_Reads rt (calls c1 @ [(CreateHeader name, None)])) = (copyErr, unread)"
      by (metis surj_pair)
    show ?thesis
    proof (cases unread)
      case (Cons p ps)
      have "addTimeBasedProfile rt c name t start stop = None"
        using st s None io Cons by (intro capture_stalled [of start c c1 name rt copyErr p ps]) simp_all
      then show ?thesis using run by simp
    next
      case Nil
      have eq: "addTimeBasedProfile rt c name t start stop
         = Some ((case copyErr of Some e \<Rightarrow> Some e | None \<Rightarrow> closeErr),
            record_call (PumpCopy name (if t > 0 then Some t else None)) copyErr
              (record_call PipeClose closeErr c3))"
        using st s None io Nil
        by (intro capture_streamed [of start c c1 name rt copyErr]) (simp_all add: c3_def closeErr_def)
      have "r = (case copyErr of Some e \<Rightarrow> Some e | None \<Rightarrow> closeErr)"
        "c' = record_call (PumpCopy name (if t > 0 then Some t else None)) copyErr
              (record_call PipeClose closeErr c3)"
        using run eq by simp_all
      then show ?thesis
        using s None io [unfolded Nil] c3_def closeErr_def by (intro streamed [of copyErr c3 closeErr])
    qed
  qed
qed

lemma capture_ok:
  assumes run: "addTimeBasedProfile rt c name t start stop = Some (None, c')"
    and st: "start PipeWriter c = (serr, c1)"
  shows "(serr \<noteq> None \<and> c' = c1)
       \<or> (serr = None \<and>
           c' = record_call (PumpCopy name (if t > 0 then Some t else None)) None
                  (record_call PipeClose None (stop (record_call (CreateHeader name) None c1))))"
  using st run
proof (cases rule: capture_cases)
  case (skipped e)
  then show ?thesis by simp
next
  case (header_failed e)
  then show ?thesis by simp
next
  case (streamed copyErr c3 closeErr)
  have "copyErr = None" "closeErr = None"
    using streamed(6) by (simp_all split: option.splits)
  then show ?thesis using streamed by simp
qed

lemma StartCPUProfile_call_eq:
  "StartCPUProfile_call rt w c =
     (pprof_StartCPUProfile rt (calls c) w,
      record_call (StartCPUProfile w) (pprof_StartCPUProfile rt (calls c) w) c)"
  by (simp add: StartCPUProfile_call_def Let_def)

lemma trace_Start_call_eq:
  "trace_Start_call rt w c =
     (trace_Start rt (calls c), record_call TraceStart (trace_Start rt (calls c)) c)"
  by (simp add: trace_Start_call_def Let_def)

lemma addCPUProfile_ok:
  assumes "addCPUProfile rt c name = Some (None, c')"
  shows "(\<exists>e. calls c' = calls c @ [(StartCPUProfile PipeWriter, Some e)])
       \<or> (\<exists>w. calls c' = calls c @ [(StartCPUProfile PipeWriter, None), (CreateHeader name, None),
              (StopCPUProfile, None), (PipeClose, None), (PumpCopy name w, None)])"
  using capture_ok [OF assms [unfolded addCPUProfile_def] StartCPUProfile_call_eq]
  by (cases "pprof_StartCPUProfile rt (calls c) PipeWriter") (auto simp: StopCPUProfile_call_def)

lemma addTimeBasedProfile_fields:
  assumes start: "\<And>w c. opt (snd (start w c)) = opt c \<and> finish (snd (start w c)) = finish c
             \<and> writeFileHeader (snd (start w c)) = writeFileHeader c"
    and stop: "\<And>c. opt (stop c) = opt c \<and> finish (stop c) = finish c
             \<and> writeFileHeader (stop c) = writeFileHeader c"
    and run: "addTimeBasedProfile rt c name t start stop = Some (r, c')"
  shows "opt c' = opt c \<and> finish c' = finish c \<and> writeFileHeader c' = writeFileHeader c"
proof -
  obtain serr c1 where st: "start PipeWriter c = (serr, c1)" by (metis surj_pair)
  have c1: "opt c1 = opt c \<and> finish c1 = finish c \<and> writeFileHeader c1 = writeFileHeader c"
    using start [of PipeWriter c] st by simp
  from st run show ?thesis
  proof (cases rule: capture_cases)
    case (skipped e)
    then show ?thesis using c1 by simp
  next
    case (header_failed e)
    then show ?thesis using c1 by simp
  next
    case (streamed copyErr c3 closeErr)
    have "opt c3 = opt c \<and> finish c3 = finish c \<and> writeFileHeader c3 = writeFileHeader c"
      unfolding streamed(4) using stop [of "record_call (CreateHeader name) None c1"] c1 by simp
    then show ?thesis unfolding streamed(7) by simp
  qed
qed

lemma addCPUProfile_fields:
  assumes "addCPUProfile rt c name = Some (r, c')"
  shows "opt c' = opt c" "finish c' = finish c" "writeFileHeader c' = writeFileHeader c"
  using addTimeBasedProfile_fields [OF _ _ assms [unfolded addCPUProfile_def]]
  by (simp_all add: StartCPUProfile_call_eq StopCPUProfile_call_def)

lemma start_with_profile_eq:
  "start_with_profile rt w c =
     (let e1 = pprof_StartCPUProfile rt (calls c) MemBuffer;
          c1 = record_call (StartCPUProfile MemBuffer) e1 c;
          c2 = (if e1 = None then c1\<lparr>cpuProfile := Some []\<rparr> else c1);
          e2 = trace_Start rt (calls c2)
      in (e2, record_call TraceStart e2 c2))"
  by (simp add: start_with_profile_def StartCPUProfile_call_eq trace_Start_call_eq Let_def)

lemma stop_with_profile_fields [simp]:
  "opt (stop_with_profile rt c) = opt c"
  "finish (stop_with_profile rt c) = finish c"
  "writeFileHeader (stop_with_profile rt c) = writeFileHeader c"
  by (simp_all add: stop_with_profile_def trace_Stop_call_def StopCPUProfile_call_def Let_def
      split: option.splits)

lemma start_with_profile_fields [simp]:
  "opt (snd (start_with_profile rt w c)) = opt c"
  "finish (snd (start_with_profile rt w c)) = finish c"
  "writeFileHeader (snd (start_with_profile rt w c)) = writeFileHeader c"
  by (simp_all add: start_with_profile_eq Let_def)

lemma write_profile_during_trace_fields [simp]:
  "opt (snd (write_profile_during_trace rt c pname)) = opt c"
  "finish (snd (write_profile_during_trace rt c pname)) = finish c"
  "writeFileHeader (snd (write_profile_during_trace rt c pname)) = writeFileHeader c"
  by (simp_all add: write_profile_during_trace_def Let_def split: option.splits)

text \<open>
  \<open>addExecutionTrace\<close> returns when its capture does, and then with the results of the
  capture and of the function literal.
\<close>

lemma addExecutionTrace_Some:
  assumes "addExecutionTrace rt c name pname = Some (r, c')"
  shows "\<exists>traceErr c1 profileErr.
      addTimeBasedProfile rt (c\<lparr>cpuProfile := None\<rparr>) name (ExecutionTraceByteTarget (opt c))
         (if 0 < CPUProfileDuration (opt c) then start_with_profile rt else trace_Start_call rt)
         (if 0 < CPUProfileDuration (opt c) then stop_with_profile rt else trace_Stop_call rt)
        = Some (traceErr, c1)
    \<and> write_profile_during_trace rt c1 pname = (profileErr, c')
    \<and> r = (if traceErr \<noteq> None then traceErr else profileErr)"
  using assms
  by (auto simp: addExecutionTrace_def Let_def split: option.splits prod.splits if_splits)

lemma addExecutionTrace_eq:
  assumes "addTimeBasedProfile rt (c\<lparr>cpuProfile := None\<rparr>) name (ExecutionTraceByteTarget (opt c))
         (if 0 < CPUProfileDuration (opt c) then start_with_profile rt else trace_Start_call rt)
         (if 0 < CPUProfileDuration (opt c) then stop_with_profile rt else trace_Stop_call rt)
        = Some (traceErr, c1)"
  shows "addExecutionTrace rt c name pname =
     Some (if traceErr \<noteq> None then traceErr else fst (write_profile_during_trace rt c1 pname),
           snd (write_profile_during_trace rt c1 pname))"
  using assms
  by (auto simp: addExecutionTrace_def Let_def split: option.splits prod.splits if_splits)

lemma trace_capture_fields:
  assumes "addTimeBasedProfile rt c name t
       (if b then start_with_profile rt else trace_Start_call rt)
       (if b then stop_with_profile rt else trace_Stop_call rt) = Some (r, c')"
  shows "opt c' = opt c \<and> finish c' = finish c \<and> writeFileHeader c' = writeFileHeader c"
  by (rule addTimeBasedProfile_fields [OF _ _ assms])
    (simp_all add: trace_Start_call_eq trace_Stop_call_def)

lemma addExecutionTrace_fields:
  assumes "addExecutionTrace rt c name pname = Some (r, c')"
  shows "opt c' = opt c" "finish c' = finish c" "writeFileHeader c' = writeFileHeader c"
proof -
  obtain traceErr c1 profileErr where
    tr: "addTimeBasedProfile rt (c\<lparr>cpuProfile := None\<rparr>) name (ExecutionTraceByteTarget (opt c))
         (if 0 < CPUProfileDuration (opt c) then start_with_profile rt else trace_Start_call rt)
         (if 0 < CPUProfileDuration (opt c) then stop_with_profile rt else trace_Stop_call rt)
        = Some (traceErr, c1)"
    and wp: "write_profile_during_trace rt c1 pname = (profileErr, c')"
    using addExecutionTrace_Some [OF assms] by blast
  have c': "c' = snd (write_profile_during_trace rt c1 pname)"
    using wp by simp
  show "opt c' = opt c" "finish c' = finish c" "writeFileHeader c' = writeFileHeader c"
    using trace_capture_fields [OF tr] unfolding c' by simp_all
qed

lemma trace_only_ok:
  assumes "addExecutionTrace rt c name pname = Some (None, c')"
    and "\<not> 0 < CPUProfileDuration (opt c)"
  shows "(\<exists>e. calls c' = calls c @ [(TraceStart, Some e)])
       \<or> (\<exists>w. calls c' = calls c @ [(TraceStart, None), (CreateHeader name, None),
              (TraceStop, None), (PipeClose, None), (PumpCopy name w, None)])"
proof -
  let ?c0 = "c\<lparr>cpuProfile := None\<rparr>"
  obtain r c1 profileErr where r1: "addTimeBasedProfile rt ?c0 name (ExecutionTraceByteTarget (opt c))
       (trace_Start_call rt) (trace_Stop_call rt) = Some (r, c1)"
    and wp: "write_profile_during_trace rt c1 pname = (profileErr, c')"
    and res: "None = (if r \<noteq> None then r else profileErr)"
    using addExecutionTrace_Some [OF assms(1)] assms(2) by auto
  have r: "r = None"
    using res by (simp split: if_splits)
  have shape: "(trace_Start rt (calls c) \<noteq> None \<and> c1 = record_call TraceStart (trace_Start rt (calls c)) ?c0)
     \<or> (trace_Start rt (calls c) = None \<and>
         c1 = record_call (PumpCopy name (if ExecutionTraceByteTarget (opt c) > 0 then Some (ExecutionTraceByteTarget (opt c)) else None)) None
                  (record_call PipeClose None (trace_Stop_call rt (record_call (CreateHeader name) None (record_call TraceStart (trace_Start rt (calls c)) ?c0)))))"
    using capture_ok [OF r1 [unfolded r], of "trace_Start rt (calls c)" "record_call TraceStart (trace_Start rt (calls c)) ?c0"]
    by (simp add: trace_Start_call_eq)
  have cp: "cpuProfile c1 = None"
    using shape by (auto simp: trace_Stop_call_def)
  have c': "c' = c1"
    using wp cp by (simp add: write_profile_during_trace_def)
  show ?thesis
    using shape unfolding c'
    by (cases "trace_Start rt (calls c)") (auto simp: trace_Stop_call_def)
qed

lemma write_profile_ok:
  assumes "write_profile_during_trace rt c pname = (None, c')"
  shows "(cpuProfile c = None \<and> c' = c)
       \<or> (\<exists>buf. cpuProfile c = Some buf \<and>
             calls c' = calls c @ [(CreateHeader pname, None), (BufferCopy pname buf, None)])"
proof (cases "cpuProfile c")
  case None
  then show ?thesis using assms by (simp add: write_profile_during_trace_def)
next
  case (Some buf)
  show ?thesis
  proof (cases "writeFileHeader c (calls c) pname")
    case None
    then show ?thesis
      using assms Some by (auto simp: write_profile_during_trace_def Let_def)
  next
    case (Some e)
    then show ?thesis
      using assms \<open>cpuProfile c = Some buf\<close> by (simp add: write_profile_during_trace_def Let_def)
  qed
qed

lemma trace_with_profile_ok:
  assumes run: "addExecutionTrace rt c name pname = Some (None, c')"
    and cpu: "0 < CPUProfileDuration (opt c)"
  shows "(\<exists>e1 e2. calls c' = calls c @ [(StartCPUProfile MemBuffer, Some e1), (TraceStart, Some e2)])
       \<or> (\<exists>e1 w. calls c' = calls c @ [(StartCPUProfile MemBuffer, Some e1), (TraceStart, None),
              (CreateHeader name, None), (TraceStop, None), (PipeClose, None),
              (PumpCopy name w, None)])
       \<or> (\<exists>e2. calls c' = calls c @ [(StartCPUProfile MemBuffer, None), (TraceStart, Some e2),
              (CreateHeader pname, None), (BufferCopy pname [], None)])
       \<or> (\<exists>w buf. calls c' = calls c @ [(StartCPUProfile MemBuffer, None), (TraceStart, None),
              (CreateHeader name, None), (TraceStop, None), (StopCPUProfile, None),
              (PipeClose, None), (PumpCopy name w, None),
              (CreateHeader pname, None), (BufferCopy pname buf, None)])"
proof -
  let ?c0 = "c\<lparr>cpuProfile := None\<rparr>"
  define e1 where "e1 = pprof_StartCPUProfile rt (calls c) MemBuffer"
  define cA where "cA = record_call (StartCPUProfile MemBuffer) e1 ?c0"
  define cB where "cB = (if e1 = None then cA\<lparr>cpuProfile := Some []\<rparr> else cA)"
  define e2 where "e2 = trace_Start rt (calls cB)"
  define cC where "cC = record_call TraceStart e2 cB"
  have st: "start_with_profile rt PipeWriter ?c0 = (e2, cC)"
    by (simp add: start_with_profile_eq Let_def e1_def cA_def cB_def e2_def cC_def)
  have callsC: "calls cC = calls c @ [(StartCPUProfile MemBuffer, e1), (TraceStart, e2)]"
    by (simp add: cC_def cB_def cA_def)
  have cpC: "cpuProfile cC = (if e1 = None then Some [] else None)"
    by (simp add: cC_def cB_def cA_def)
  obtain r c1 profileErr where r1: "addTimeBasedProfile rt ?c0 name (ExecutionTraceByteTarget (opt c))
       (start_with_profile rt) (stop_with_profile rt) = Some (r, c1)"
    and wp0: "write_profile_during_trace rt c1 pname = (profileErr, c')"
    and res: "None = (if r \<noteq> None then r else profileErr)"
    using addExecutionTrace_Some [OF run] cpu by auto
  have r: "r = None" and pe: "profileErr = None"
    using res by (simp_all split: if_splits)
  have wp: "write_profile_during_trace rt c1 pname = (None, c')"
    using wp0 pe by simp
  define w where "w = (if ExecutionTraceByteTarget (opt c) > 0 then Some (ExecutionTraceByteTarget (opt c)) else None)"
  have shape: "(e2 \<noteq> None \<and> c1 = cC)
     \<or> (e2 = None \<and> c1 = record_call (PumpCopy name w) None
            (record_call PipeClose None (stop_with_profile rt (record_call (CreateHeader name) None cC))))"
    using capture_ok [OF r1 [unfolded r] st] by (simp add: w_def)
  show ?thesis
  proof (cases e2)
    case (Some x2)
    then have c1: "c1 = cC" using shape by simp
    show ?thesis
    proof (cases e1)
      case None
      then show ?thesis
        using write_profile_ok [OF wp] c1 callsC cpC Some by auto
    next
      case (Some x1)
      then show ?thesis
        using write_profile_ok [OF wp] c1 callsC cpC \<open>e2 = Some x2\<close> by auto
    qed
  next
    case None
    then have c1: "c1 = record_call (PumpCopy name w) None
            (record_call PipeClose None (stop_with_profile rt (record_call (CreateHeader name) None cC)))"
      using shape by simp
    show ?thesis
    proof (cases e1)
      case None
      have "calls c1 = calls c @ [(StartCPUProfile MemBuffer, None), (TraceStart, None),
              (CreateHeader name, None), (TraceStop, None), (StopCPUProfile, None),
              (PipeClose, None), (PumpCopy name w, None)]"
        and "cpuProfile c1 \<noteq> None"
        using c1 callsC cpC None \<open>e2 = None\<close>
        by (simp_all add: stop_with_profile_def trace_Stop_call_def StopCPUProfile_call_def Let_def)
      then show ?thesis
        using write_profile_ok [OF wp] by auto
    next
      case (Some x1)
      have "calls c1 = calls c @ [(StartCPUProfile MemBuffer, Some x1), (TraceStart, None),
              (CreateHeader name, None), (TraceStop, None),
              (PipeClose, None), (PumpCopy name w, None)]"
        and "cpuProfile c1 = None"
        using c1 callsC cpC Some \<open>e2 = None\<close>
        by (simp_all add: stop_with_profile_def trace_Stop_call_def StopCPUProfile_call_def Let_def)
      then show ?thesis
        using write_profile_ok [OF wp] by auto
    qed
  qed
qed


subsection \<open>The shape of a successful run\<close>

lemma present_builtin [simp]:
  "present (metaSource rt)" "present expvarSource" "present (pprofSource rt name)"
  by (simp_all add: present_def metaSource_def errSource_def expvarSource_def pprofSource_def
      split: option.splits)

lemma static_entries:
  "map fst (filter (\<lambda>x. present (snd x)) (static_sources rt opts)) =
     [''meta'', ''expvar'', ''pprof/heap'']
     @ map (\<lambda>name. ''pprof/'' @ PathEscape rt name) (filter (\<lambda>name. name \<noteq> ''heap'') (Profiles rt))
     @ map (\<lambda>name. ''custom/'' @ PathEscape rt name)
         (filter (\<lambda>name. present (lookup_custom (CustomDataSources opts) name))
            (sorted_list_of_set (fst ` set (CustomDataSources opts))))"
proof -
  have "sort (remdups (map fst (CustomDataSources opts)))
          = sorted_list_of_set (fst ` set (CustomDataSources opts))"
    using sorted_list_of_set_sort_remdups [of "map fst (CustomDataSources opts)"]
    by (simp only: set_map)
  then show ?thesis
    by (simp add: static_sources_def filter_map comp_def)
qed

lemma new_calls_self [simp]: "new_calls c c = []"
  by (simp add: new_calls_def)

lemma cpu_phase_summary:
  assumes "addCPUProfile rt c name = Some (None, c')"
  shows "calls c' = calls c @ new_calls c c'"
    and "entries (new_calls c c') = (if succeeded (StartCPUProfile PipeWriter) (new_calls c c') then [name] else [])"
    and "\<not> succeeded (StartCPUProfile MemBuffer) (new_calls c c')"
    and "\<not> succeeded TraceStart (new_calls c c')"
    and "times_called Finish (new_calls c c') = 0"
  using addCPUProfile_ok [OF assms]
  by (auto simp: succeeded_def times_called_def new_calls_def)

lemma trace_phase_summary:
  assumes "addExecutionTrace rt c name pname = Some (None, c')"
  shows "calls c' = calls c @ new_calls c c'"
    and "entries (new_calls c c') = (if succeeded TraceStart (new_calls c c') then [name] else [])
          @ (if succeeded (StartCPUProfile MemBuffer) (new_calls c c') then [pname] else [])"
    and "\<not> succeeded (StartCPUProfile PipeWriter) (new_calls c c')"
    and "succeeded (StartCPUProfile MemBuffer) (new_calls c c') \<longrightarrow> 0 < CPUProfileDuration (opt c)"
    and "times_called Finish (new_calls c c') = 0"
proof -
  have "calls c' = calls c @ new_calls c c'
    \<and> entries (new_calls c c') = (if succeeded TraceStart (new_calls c c') then [name] else [])
          @ (if succeeded (StartCPUProfile MemBuffer) (new_calls c c') then [pname] else [])
    \<and> \<not> succeeded (StartCPUProfile PipeWriter) (new_calls c c')
    \<and> (succeeded (StartCPUProfile MemBuffer) (new_calls c c') \<longrightarrow> 0 < CPUProfileDuration (opt c))
    \<and> times_called Finish (new_calls c c') = 0"
  proof (cases "0 < CPUProfileDuration (opt c)")
    case True
    show ?thesis
      using trace_with_profile_ok [OF assms True] True
      by (elim disjE exE) (simp_all add: succeeded_def times_called_def new_calls_def)
  next
    case False
    show ?thesis
      using trace_only_ok [OF assms False]
      by (elim disjE exE) (simp_all add: succeeded_def times_called_def new_calls_def)
  qed
  then show "calls c' = calls c @ new_calls c c'"
    and "entries (new_calls c c') = (if succeeded TraceStart (new_calls c c') then [name] else [])
          @ (if succeeded (StartCPUProfile MemBuffer) (new_calls c c') then [pname] else [])"
    and "\<not> succeeded (StartCPUProfile PipeWriter) (new_calls c c')"
    and "succeeded (StartCPUProfile MemBuffer) (new_calls c c') \<longrightarrow> 0 < CPUProfileDuration (opt c)"
    and "times_called Finish (new_calls c c') = 0"
    by simp_all
qed

lemma static_events_quiet:
  "times_called Finish (concat (map (\<lambda>x. static_events (fst x)) xs)) = 0"
  "\<not> succeeded (StartCPUProfile w) (concat (map (\<lambda>x. static_events (fst x)) xs))"
  "\<not> succeeded TraceStart (concat (map (\<lambda>x. static_events (fst x)) xs))"
  by (induction xs) (auto simp: static_events_def times_called_def succeeded_def)

lemma static_summary:
  assumes "addErr (static_phase rt c) = None"
  shows "calls (static_phase rt c) = calls c @ new_calls c (static_phase rt c)"
    and "entries (new_calls c (static_phase rt c))
           = map fst (filter (\<lambda>x. present (snd x)) (static_sources rt (opt c)))"
    and "\<not> succeeded (StartCPUProfile w) (new_calls c (static_phase rt c))"
    and "\<not> succeeded TraceStart (new_calls c (static_phase rt c))"
    and "times_called Finish (new_calls c (static_phase rt c)) = 0"
proof -
  let ?new = "concat (map (\<lambda>x. static_events (fst x)) (filter (\<lambda>x. present (snd x)) (static_sources rt (opt c))))"
  have c: "calls (static_phase rt c) = calls c @ ?new"
    using add_all_ok [of c "static_sources rt (opt c)"] assms by (simp add: static_phase_add_all)
  then have n: "new_calls c (static_phase rt c) = ?new"
    by (rule new_calls_append)
  show "calls (static_phase rt c) = calls c @ new_calls c (static_phase rt c)"
    using c n by simp
  show "entries (new_calls c (static_phase rt c))
           = map fst (filter (\<lambda>x. present (snd x)) (static_sources rt (opt c)))"
    unfolding n by (rule entries_static)
  show "\<not> succeeded (StartCPUProfile w) (new_calls c (static_phase rt c))"
    "\<not> succeeded TraceStart (new_calls c (static_phase rt c))"
    "times_called Finish (new_calls c (static_phase rt c)) = 0"
    unfolding n by (rule static_events_quiet)+
qed

lemma static_phase_fields [simp]:
  "opt (static_phase rt c) = opt c"
  "finish (static_phase rt c) = finish c"
  "writeFileHeader (static_phase rt c) = writeFileHeader c"
  by (simp_all add: static_phase_add_all)

lemma Run_ok_cases:
  assumes "Run rt c0 = Some (None, c')"
  shows "\<exists>c1 c2. addErr (static_phase rt c0) = None
     \<and> (if 0 < CPUProfileDuration (opt c0)
        then addCPUProfile rt (static_phase rt c0) ''pprof/profile'' = Some (None, c1)
        else c1 = static_phase rt c0)
     \<and> (if 0 < ExecutionTraceDuration (opt c1)
        then addExecutionTrace rt c1 ''pprof/trace'' ''pprof/profile-during-trace'' = Some (None, c2)
        else c2 = c1)
     \<and> c' = record_call Finish None c2"
  using assms
  by (auto simp: Run_def Let_def split: if_splits option.splits prod.splits)

lemma Run_ok_shape:
  assumes run: "Run rt c = Some (None, c')"
  shows "\<exists>s p t. calls c' = calls c @ s @ p @ t @ [(Finish, None)]
     \<and> entries s = map fst (filter (\<lambda>x. present (snd x)) (static_sources rt (opt c)))
     \<and> \<not> succeeded (StartCPUProfile PipeWriter) s
     \<and> \<not> succeeded (StartCPUProfile MemBuffer) s \<and> \<not> succeeded TraceStart s
     \<and> times_called Finish s = 0
     \<and> entries p = (if succeeded (StartCPUProfile PipeWriter) p then [''pprof/profile''] else [])
     \<and> \<not> succeeded (StartCPUProfile MemBuffer) p \<and> \<not> succeeded TraceStart p
     \<and> times_called Finish p = 0
     \<and> (succeeded (StartCPUProfile PipeWriter) p \<longrightarrow> 0 < CPUProfileDuration (opt c))
     \<and> entries t = (if succeeded TraceStart t then [''pprof/trace''] else [])
          @ (if succeeded (StartCPUProfile MemBuffer) t then [''pprof/profile-during-trace''] else [])
     \<and> \<not> succeeded (StartCPUProfile PipeWriter) t
     \<and> times_called Finish t = 0
     \<and> (succeeded TraceStart t \<longrightarrow> 0 < ExecutionTraceDuration (opt c))
     \<and> (succeeded (StartCPUProfile MemBuffer) t \<longrightarrow>
           0 < ExecutionTraceDuration (opt c) \<and> 0 < CPUProfileDuration (opt c))"
proof -
  define c1 where "c1 = static_phase rt c"
  obtain c2 c3 where e0: "addErr c1 = None"
    and r1: "if 0 < CPUProfileDuration (opt c)
        then addCPUProfile rt c1 ''pprof/profile'' = Some (None, c2) else c2 = c1"
    and r2: "if 0 < ExecutionTraceDuration (opt c2)
        then addExecutionTrace rt c2 ''pprof/trace'' ''pprof/profile-during-trace'' = Some (None, c3)
        else c3 = c2"
    and fin: "c' = record_call Finish None c3"
    using Run_ok_cases [OF run] unfolding c1_def by blast
  define s where "s = new_calls c c1"
  define p where "p = new_calls c1 c2"
  define t where "t = new_calls c2 c3"
  note st = static_summary [of rt c, folded c1_def, OF e0, folded s_def]
  have p: "calls c2 = calls c1 @ p
     \<and> entries p = (if succeeded (StartCPUProfile PipeWriter) p then [''pprof/profile''] else [])
     \<and> \<not> succeeded (StartCPUProfile MemBuffer) p \<and> \<not> succeeded TraceStart p
     \<and> times_called Finish p = 0
     \<and> (succeeded (StartCPUProfile PipeWriter) p \<longrightarrow> 0 < CPUProfileDuration (opt c))"
  proof (cases "0 < CPUProfileDuration (opt c)")
    case True
    then have "addCPUProfile rt c1 ''pprof/profile'' = Some (None, c2)"
      using r1 by simp
    from cpu_phase_summary [OF this, folded p_def] True show ?thesis by simp
  next
    case False
    then have "c2 = c1" using r1 by simp
    then show ?thesis
      by (simp add: p_def succeeded_def times_called_def)
  qed
  have opt1: "opt c2 = opt c"
  proof (cases "0 < CPUProfileDuration (opt c)")
    case True
    then have "addCPUProfile rt c1 ''pprof/profile'' = Some (None, c2)"
      using r1 by simp
    from addCPUProfile_fields(1) [OF this] show ?thesis by (simp add: c1_def)
  next
    case False
    then have "c2 = c1" using r1 by simp
    then show ?thesis by (simp add: c1_def)
  qed
  have t: "calls c3 = calls c2 @ t
     \<and> entries t = (if succeeded TraceStart t then [''pprof/trace''] else [])
          @ (if succeeded (StartCPUProfile MemBuffer) t then [''pprof/profile-during-trace''] else [])
     \<and> \<not> succeeded (StartCPUProfile PipeWriter) t
     \<and> times_called Finish t = 0
     \<and> (succeeded TraceStart t \<longrightarrow> 0 < ExecutionTraceDuration (opt c))
     \<and> (succeeded (StartCPUProfile MemBuffer) t \<longrightarrow>
           0 < ExecutionTraceDuration (opt c) \<and> 0 < CPUProfileDuration (opt c))"
  proof (cases "0 < ExecutionTraceDuration (opt c)")
    case True
    then have "addExecutionTrace rt c2 ''pprof/trace'' ''pprof/profile-during-trace'' = Some (None, c3)"
      using r2 opt1 by simp
    from trace_phase_summary [OF this, folded t_def] True opt1 show ?thesis by simp
  next
    case False
    then have "c3 = c2" using r2 opt1 by simp
    then show ?thesis
      by (simp add: t_def succeeded_def times_called_def)
  qed
  have cs: "calls c' = calls c @ s @ p @ t @ [(Finish, None)]"
    using fin st(1) p t by simp
  show ?thesis
    apply (rule exI [of _ s], rule exI [of _ p], rule exI [of _ t])
    using cs st(2-) p t by (intro conjI; simp)
qed

subsection \<open>The order of the entries\<close>

text \<open>The result of a run that returns, with the calls of the state it returns.\<close>

lemma returned_calls:
  "map_option (\<lambda>x. (fst x, calls (snd x))) r = Some (e, cs) \<Longrightarrow>
     \<exists>c'. r = Some (e, c') \<and> calls c' = cs"
  by (cases r) auto

lemma full_run:
  "map_option (\<lambda>x. (fst x, calls (snd x)))
      (Run quiet_runtime (NewCollector full_options ok_header ok_finish)) = Some (None,
     [(CreateHeader ''meta'', None), (SourceWriteTo ''meta'', None),
      (CreateHeader ''expvar'', None), (SourceWriteTo ''expvar'', None),
      (CreateHeader ''pprof/heap'', None), (SourceWriteTo ''pprof/heap'', None),
      (CreateHeader ''pprof/goroutine'', None), (SourceWriteTo ''pprof/goroutine'', None),
      (CreateHeader ''custom/a'', None), (SourceWriteTo ''custom/a'', None),
      (CreateHeader ''custom/b'', None), (SourceWriteTo ''custom/b'', None),
      (StartCPUProfile PipeWriter, None), (CreateHeader ''pprof/profile'', None),
      (StopCPUProfile, None), (PipeClose, None), (PumpCopy ''pprof/profile'' None, None),
      (StartCPUProfile MemBuffer, None), (TraceStart, None),
      (CreateHeader ''pprof/trace'', None), (TraceStop, None), (StopCPUProfile, None),
      (PipeClose, None), (PumpCopy ''pprof/trace'' (Some 10), None),
      (CreateHeader ''pprof/profile-during-trace'', None),
      (BufferCopy ''pprof/profile-during-trace'' [1, 2, 3], None),
      (Finish, None)])"
  by code_simp

lemma nil_custom_run:
  "map_option (\<lambda>x. (fst x, calls (snd x)))
      (Run quiet_runtime (NewCollector nil_custom_options ok_header ok_finish)) = Some (None,
     [(CreateHeader ''meta'', None), (SourceWriteTo ''meta'', None),
      (CreateHeader ''expvar'', None), (SourceWriteTo ''expvar'', None),
      (CreateHeader ''pprof/heap'', None), (SourceWriteTo ''pprof/heap'', None),
      (CreateHeader ''pprof/goroutine'', None), (SourceWriteTo ''pprof/goroutine'', None),
      (Finish, None)])"
  by code_simp

lemma entries_Finish [simp]: "entries [(Finish, r)] = []"
  by simp

text \<open>
  C1 (amended). For every run of \<open>Run\<close> on a fresh collector that returns success, the
  entries of the archive are, in this order: \<open>meta\<close>, \<open>expvar\<close>, \<open>pprof/heap\<close>, then
  \<open>pprof/<name>\<close> (name path-escaped) for each enumerated profile other than heap, in
  the order of enumeration, then \<open>custom/<name>\<close> (name path-escaped) for each custom data
  source that is not nil and whose \<open>WriteTo\<close> is not nil, in the lexicographic order of
  the unescaped names, then \<open>pprof/profile\<close> if and only if a CPU capture was requested
  and its start succeeded, then \<open>pprof/trace\<close> if and only if a trace capture was
  requested and its start succeeded, then \<open>pprof/profile-during-trace\<close> if and only if
  both were requested, the trace started and the CPU capture that wraps the trace started
  (whether or not the capture for \<open>pprof/profile\<close> ran). Runs in which the wrapping CPU
  capture starts and the trace does not are left aside.
\<close>

theorem C1_entry_order:
  assumes run: "Run rt (NewCollector opts wfh fin) = Some (None, c')"
    and wrapped: "succeeded (StartCPUProfile MemBuffer) (calls c') \<longrightarrow> succeeded TraceStart (calls c')"
  shows "entries (calls c') =
     [''meta'', ''expvar'', ''pprof/heap'']
     @ map (\<lambda>name. ''pprof/'' @ PathEscape rt name) (filter (\<lambda>name. name \<noteq> ''heap'') (Profiles rt))
     @ map (\<lambda>name. ''custom/'' @ PathEscape rt name)
         (filter (\<lambda>name. present (lookup_custom (CustomDataSources opts) name))
            (sorted_list_of_set (fst ` set (CustomDataSources opts))))
     @ (if 0 < CPUProfileDuration opts \<and> succeeded (StartCPUProfile PipeWriter) (calls c')
        then [''pprof/profile''] else [])
     @ (if 0 < ExecutionTraceDuration opts \<and> succeeded TraceStart (calls c')
        then [''pprof/trace''] else [])
     @ (if 0 < CPUProfileDuration opts \<and> 0 < ExecutionTraceDuration opts
           \<and> succeeded TraceStart (calls c') \<and> succeeded (StartCPUProfile MemBuffer) (calls c')
        then [''pprof/profile-during-trace''] else [])"
proof -
  let ?c = "NewCollector opts wfh fin"
  have c0: "calls ?c = []" "opt ?c = opts"
    by (simp_all add: NewCollector_def)
  obtain s p t where sh: "calls c' = s @ p @ t @ [(Finish, None)]"
     "entries s = map fst (filter (\<lambda>x. present (snd x)) (static_sources rt opts))"
     "\<not> succeeded (StartCPUProfile PipeWriter) s"
     "\<not> succeeded (StartCPUProfile MemBuffer) s" "\<not> succeeded TraceStart s"
     "entries p = (if succeeded (StartCPUProfile PipeWriter) p then [''pprof/profile''] else [])"
     "\<not> succeeded (StartCPUProfile MemBuffer) p" "\<not> succeeded TraceStart p"
     "succeeded (StartCPUProfile PipeWriter) p \<longrightarrow> 0 < CPUProfileDuration opts"
     "entries t = (if succeeded TraceStart t then [''pprof/trace''] else [])
          @ (if succeeded (StartCPUProfile MemBuffer) t then [''pprof/profile-during-trace''] else [])"
     "\<not> succeeded (StartCPUProfile PipeWriter) t"
     "succeeded TraceStart t \<longrightarrow> 0 < ExecutionTraceDuration opts"
     "succeeded (StartCPUProfile MemBuffer) t \<longrightarrow>
           0 < ExecutionTraceDuration opts \<and> 0 < CPUProfileDuration opts"
    using Run_ok_shape [OF run] unfolding c0 by (elim exE conjE) simp
  have f: "\<not> succeeded (StartCPUProfile PipeWriter) [(Finish, None)]"
    "\<not> succeeded (StartCPUProfile MemBuffer) [(Finish, None)]"
    "\<not> succeeded TraceStart [(Finish, None)]"
    by (simp_all add: succeeded_def)
  have a: "succeeded (StartCPUProfile PipeWriter) (calls c') = succeeded (StartCPUProfile PipeWriter) p"
    using sh(3,11) f(1) by (simp add: sh(1) succeeded_append)
  have b: "succeeded TraceStart (calls c') = succeeded TraceStart t"
    using sh(5,8) f(3) by (simp add: sh(1) succeeded_append)
  have w: "succeeded (StartCPUProfile MemBuffer) (calls c') = succeeded (StartCPUProfile MemBuffer) t"
    using sh(4,7) f(2) by (simp add: sh(1) succeeded_append)
  have "entries (calls c') = entries s @ entries p @ entries t"
    by (simp add: sh(1) entries_append)
  then show ?thesis
    using wrapped sh(9,12,13) unfolding a b w sh(2,6,10) static_entries
    by auto
qed

theorem C1_witness:
  "\<exists>c'. Run quiet_runtime (NewCollector full_options ok_header ok_finish) = Some (None, c')
     \<and> succeeded TraceStart (calls c')
     \<and> entries (calls c')
        = [''meta'', ''expvar'', ''pprof/heap'', ''pprof/goroutine'', ''custom/a'', ''custom/b'',
           ''pprof/profile'', ''pprof/trace'', ''pprof/profile-during-trace'']"
proof -
  obtain c' where run: "Run quiet_runtime (NewCollector full_options ok_header ok_finish) = Some (None, c')"
    and cs: "calls c' =
     [(CreateHeader ''meta'', None), (SourceWriteTo ''meta'', None),
      (CreateHeader ''expvar'', None), (SourceWriteTo ''expvar'', None),
      (CreateHeader ''pprof/heap'', None), (SourceWriteTo ''pprof/heap'', None),
      (CreateHeader ''pprof/goroutine'', None), (SourceWriteTo ''pprof/goroutine'', None),
      (CreateHeader ''custom/a'', None), (SourceWriteTo ''custom/a'', None),
      (CreateHeader ''custom/b'', None), (SourceWriteTo ''custom/b'', None),
      (StartCPUProfile PipeWriter, None), (CreateHeader ''pprof/profile'', None),
      (StopCPUProfile, None), (PipeClose, None), (PumpCopy ''pprof/profile'' None, None),
      (StartCPUProfile MemBuffer, None), (TraceStart, None),
      (CreateHeader ''pprof/trace'', None), (TraceStop, None), (StopCPUProfile, None),
      (PipeClose, None), (PumpCopy ''pprof/trace'' (Some 10), None),
      (CreateHeader ''pprof/profile-during-trace'', None),
      (BufferCopy ''pprof/profile-during-trace'' [1, 2, 3], None),
      (Finish, None)]"
    using returned_calls [OF full_run] by blast
  have tr: "succeeded TraceStart (calls c')"
    and cpu: "succeeded (StartCPUProfile PipeWriter) (calls c')"
    and wr: "succeeded (StartCPUProfile MemBuffer) (calls c')"
    by (simp_all add: cs succeeded_def)
  have srt: "sorted_list_of_set (fst ` set (CustomDataSources full_options)) = [''a'', ''b'']"
    by (simp add: full_options_def)
  have "entries (calls c')
      = [''meta'', ''expvar'', ''pprof/heap'', ''pprof/goroutine'', ''custom/a'', ''custom/b'',
         ''pprof/profile'', ''pprof/trace'', ''pprof/profile-during-trace'']"
    using C1_entry_order [OF run] tr cpu wr
    unfolding srt
    by (simp add: quiet_runtime_def full_options_def lookup_custom_def present_def ok_source_def
        Second_def)
  then show ?thesis
    using run tr by blast
qed

theorem C1_counterexample:
  "CustomDataSources nil_custom_options = [(''a'', Some \<lparr>WriteTo = None\<rparr>)]
   \<and> (\<exists>c'. Run quiet_runtime (NewCollector nil_custom_options ok_header ok_finish) = Some (None, c')
         \<and> entries (calls c') = [''meta'', ''expvar'', ''pprof/heap'', ''pprof/goroutine'']
         \<and> ''custom/a'' \<notin> set (entries (calls c')))"
proof -
  have a: "CustomDataSources nil_custom_options = [(''a'', Some \<lparr>WriteTo = None\<rparr>)]"
    by (simp add: nil_custom_options_def)
  obtain c' where run: "Run quiet_runtime (NewCollector nil_custom_options ok_header ok_finish) = Some (None, c')"
    and cs: "calls c' =
     [(CreateHeader ''meta'', None), (SourceWriteTo ''meta'', None),
      (CreateHeader ''expvar'', None), (SourceWriteTo ''expvar'', None),
      (CreateHeader ''pprof/heap'', None), (SourceWriteTo ''pprof/heap'', None),
      (CreateHeader ''pprof/goroutine'', None), (SourceWriteTo ''pprof/goroutine'', None),
      (Finish, None)]"
    using returned_calls [OF nil_custom_run] by blast
  have "entries (calls c') = [''meta'', ''expvar'', ''pprof/heap'', ''pprof/goroutine'']"
    by (simp add: cs)
  then have "\<exists>c'. Run quiet_runtime (NewCollector nil_custom_options ok_header ok_finish) = Some (None, c')
         \<and> entries (calls c') = [''meta'', ''expvar'', ''pprof/heap'', ''pprof/goroutine'']
         \<and> ''custom/a'' \<notin> set (entries (calls c'))"
    using run by (intro exI [of _ c']) simp
  then show ?thesis
    using a by (intro conjI)
qed

text \<open>
  The runs left aside above: when the profile that wraps the trace starts and the trace
  itself cannot start, \<open>addTimeBasedProfile\<close> returns before \<open>stop\<close> is ever called, so
  \<open>pprof.StopCPUProfile\<close> is not called, and an empty \<open>pprof/profile-during-trace\<close> is written
  to an archive that has no \<open>pprof/trace\<close>.
\<close>

lemma trace_refused_run:
  "map_option (\<lambda>x. (fst x, drop 17 (calls (snd x))))
      (Run tracing_runtime (NewCollector full_options ok_header ok_finish)) = Some (None,
       [(StartCPUProfile MemBuffer, None), (TraceStart, Some (Err 6)),
        (CreateHeader ''pprof/profile-during-trace'', None),
        (BufferCopy ''pprof/profile-during-trace'' [], None),
        (Finish, None)])"
  by code_simp

subsection \<open>Failure of a static addition\<close>

lemma add_no_Finish [simp]:
  "times_called Finish (calls (add c name source)) = times_called Finish (calls c)"
  by (simp add: add_def record_call_def times_called_def Let_def split: option.splits)

lemma add_all_no_Finish [simp]:
  "times_called Finish (calls (add_all c xs)) = times_called Finish (calls c)"
  by (induction xs arbitrary: c) auto

lemma Run_static_failure:
  assumes "addErr (static_phase rt c) \<noteq> None"
  shows "Run rt c = Some (addErr (static_phase rt c), static_phase rt c)"
  using assms by (simp add: Run_def Let_def)

lemma failing_write_run:
  "map_option (\<lambda>x. (fst x, calls (snd x)))
      (Run failing_write_runtime (NewCollector zero_ArchiveOptions ok_header ok_finish))
    = Some (Some (Err 1), [(CreateHeader ''meta'', None), (SourceWriteTo ''meta'', Some (Err 1))])"
  by code_simp

lemma quiet_run:
  "map_option (\<lambda>x. (fst x, calls (snd x)))
      (Run quiet_runtime (NewCollector zero_ArchiveOptions ok_header ok_finish)) = Some (None,
     [(CreateHeader ''meta'', None), (SourceWriteTo ''meta'', None),
      (CreateHeader ''expvar'', None), (SourceWriteTo ''expvar'', None),
      (CreateHeader ''pprof/heap'', None), (SourceWriteTo ''pprof/heap'', None),
      (CreateHeader ''pprof/goroutine'', None), (SourceWriteTo ''pprof/goroutine'', None),
      (Finish, None)])"
  by code_simp

text \<open>
  C2 (amended). When a static source fails during \<open>Run\<close>, the caller is told through the
  returned error, which is the error of that source, and \<open>Run\<close> returns without
  attempting the finalization step: the state it returns is the one the static additions
  left, in which \<open>finish\<close> was never called. On full success \<open>finish\<close> was called
  exactly once, as the last call of the run, whatever was written before.
\<close>

theorem C2_finalization:
  "(addErr (static_phase rt (NewCollector opts wfh fin)) \<noteq> None \<longrightarrow>
        Run rt (NewCollector opts wfh fin)
          = Some (addErr (static_phase rt (NewCollector opts wfh fin)),
                  static_phase rt (NewCollector opts wfh fin))
      \<and> times_called Finish (calls (static_phase rt (NewCollector opts wfh fin))) = 0)
   \<and> (\<forall>c'. Run rt (NewCollector opts wfh fin) = Some (None, c') \<longrightarrow>
          times_called Finish (calls c') = 1 \<and> last (calls c') = (Finish, None))"
proof (intro conjI impI allI)
  let ?c = "NewCollector opts wfh fin"
  assume f: "addErr (static_phase rt ?c) \<noteq> None"
  show "Run rt ?c = Some (addErr (static_phase rt ?c), static_phase rt ?c)"
    by (rule Run_static_failure [OF f])
  show "times_called Finish (calls (static_phase rt ?c)) = 0"
    by (simp add: static_phase_add_all) (simp add: NewCollector_def times_called_def)
next
  fix c'
  assume run: "Run rt (NewCollector opts wfh fin) = Some (None, c')"
  obtain s p t where sh: "calls c' = calls (NewCollector opts wfh fin) @ s @ p @ t @ [(Finish, None)]"
    "times_called Finish s = 0" "times_called Finish p = 0" "times_called Finish t = 0"
    using Run_ok_shape [OF run] by (elim exE conjE)
  have c0: "calls (NewCollector opts wfh fin) = []"
    by (simp add: NewCollector_def)
  show "times_called Finish (calls c') = 1"
    using sh(2-) by (simp add: sh(1) c0 times_called_append) (simp add: times_called_def)
  show "last (calls c') = (Finish, None)"
    by (simp add: sh(1))
qed

theorem C2_witness:
  "addErr (static_phase failing_write_runtime (NewCollector zero_ArchiveOptions ok_header ok_finish)) = Some (Err 1)
   \<and> map_option fst (Run failing_write_runtime (NewCollector zero_ArchiveOptions ok_header ok_finish))
        = Some (Some (Err 1))
   \<and> times_called Finish
        (calls (static_phase failing_write_runtime (NewCollector zero_ArchiveOptions ok_header ok_finish))) = 0
   \<and> (\<exists>c'. Run quiet_runtime (NewCollector zero_ArchiveOptions ok_header ok_finish) = Some (None, c')
          \<and> times_called Finish (calls c') = 1 \<and> last (calls c') = (Finish, None))"
proof -
  let ?c = "NewCollector zero_ArchiveOptions ok_header ok_finish"
  have failed: "addErr (static_phase failing_write_runtime ?c) = Some (Err 1)"
    by code_simp
  then have ne: "addErr (static_phase failing_write_runtime ?c) \<noteq> None"
    by simp
  note th = C2_finalization [of failing_write_runtime zero_ArchiveOptions ok_header ok_finish,
      THEN conjunct1, THEN mp, OF ne]
  have a: "map_option fst (Run failing_write_runtime ?c) = Some (Some (Err 1))"
    using th [THEN conjunct1] failed by simp
  have b: "times_called Finish (calls (static_phase failing_write_runtime ?c)) = 0"
    by (rule th [THEN conjunct2])
  obtain c' where run: "Run quiet_runtime ?c = Some (None, c')"
    using returned_calls [OF quiet_run] by blast
  have "times_called Finish (calls c') = 1 \<and> last (calls c') = (Finish, None)"
    using C2_finalization [of quiet_runtime zero_ArchiveOptions ok_header ok_finish,
      THEN conjunct2, THEN spec, of c'] run by simp
  then have c: "\<exists>c'. Run quiet_runtime ?c = Some (None, c')
          \<and> times_called Finish (calls c') = 1 \<and> last (calls c') = (Finish, None)"
    using run by blast
  show ?thesis
    using failed a b c by (intro conjI)
qed

theorem C2_counterexample:
  "\<exists>c'. Run failing_write_runtime (NewCollector zero_ArchiveOptions ok_header ok_finish)
          = Some (Some (Err 1), c')
     \<and> calls c' = [(CreateHeader ''meta'', None), (SourceWriteTo ''meta'', Some (Err 1))]
     \<and> times_called Finish (calls c') = 0"
proof -
  obtain c' where run: "Run failing_write_runtime (NewCollector zero_ArchiveOptions ok_header ok_finish)
          = Some (Some (Err 1), c')"
    and cs: "calls c' = [(CreateHeader ''meta'', None), (SourceWriteTo ''meta'', Some (Err 1))]"
    using returned_calls [OF failing_write_run] by blast
  have "times_called Finish (calls c') = 0"
    by (simp add: cs times_called_def)
  then show ?thesis
    using run cs by blast
qed

text \<open>
  C3. In the sequence of static additions of \<open>Run\<close>, let the addition of \<open>(name, source)\<close>
  be the first that fails, with error \<open>e\<close>. Then every later static addition leaves the
  collector as it is (neither its header is created nor its \<open>WriteTo\<close> called), and
  \<open>Run\<close> returns \<open>e\<close> with the collector in the state in which the failing addition left
  it: nothing was called after the failure, so no CPU or trace capture was attempted and
  no other error was recorded.
\<close>

theorem C3_first_static_error:
  assumes split: "static_sources rt (opt c) = pre @ (name, source) # post"
    and before: "addErr (add_all c pre) = None"
    and failure: "addErr (add (add_all c pre) name source) = Some e"
  shows "add_all (add (add_all c pre) name source) post = add (add_all c pre) name source
       \<and> Run rt c = Some (Some e, add (add_all c pre) name source)"
proof -
  let ?c1 = "add (add_all c pre) name source"
  have skip: "add_all ?c1 post = ?c1"
    using failure by (simp add: add_all_failed)
  have "static_phase rt c = add_all ?c1 post"
    by (simp add: static_phase_add_all split add_all_append)
  then have "static_phase rt c = ?c1"
    using skip by simp
  then show ?thesis
    using skip failure Run_static_failure [of rt c] by simp
qed

theorem C3_witness:
  "static_sources failing_heap_runtime zero_ArchiveOptions
     = [(''meta'', metaSource failing_heap_runtime), (''expvar'', expvarSource)]
       @ (''pprof/heap'', pprofSource failing_heap_runtime ''heap'')
       # [(''pprof/goroutine'', pprofSource failing_heap_runtime ''goroutine'')]
   \<and> map_option (\<lambda>x. (fst x, calls (snd x)))
        (Run failing_heap_runtime (NewCollector zero_ArchiveOptions ok_header ok_finish))
      = Some (Some (Err 3),
        [(CreateHeader ''meta'', None), (SourceWriteTo ''meta'', None),
         (CreateHeader ''expvar'', None), (SourceWriteTo ''expvar'', None),
         (CreateHeader ''pprof/heap'', None), (SourceWriteTo ''pprof/heap'', Some (Err 3))])"
proof -
  let ?c = "NewCollector zero_ArchiveOptions ok_header ok_finish"
  let ?pre = "[(''meta'', metaSource failing_heap_runtime), (''expvar'', expvarSource)]"
  let ?src = "pprofSource failing_heap_runtime ''heap''"
  let ?post = "[(''pprof/goroutine'', pprofSource failing_heap_runtime ''goroutine'')]"
  have opt: "opt ?c = zero_ArchiveOptions"
    by (simp add: NewCollector_def)
  have split: "static_sources failing_heap_runtime (opt ?c) = ?pre @ (''pprof/heap'', ?src) # ?post"
    unfolding opt
    by (simp add: static_sources_def failing_heap_runtime_def quiet_runtime_def
        zero_ArchiveOptions_def)
  have before: "addErr (add_all ?c ?pre) = None"
    by code_simp
  have failure: "addErr (add (add_all ?c ?pre) ''pprof/heap'' ?src) = Some (Err 3)"
    by code_simp
  have cs: "calls (add (add_all ?c ?pre) ''pprof/heap'' ?src)
      = [(CreateHeader ''meta'', None), (SourceWriteTo ''meta'', None),
         (CreateHeader ''expvar'', None), (SourceWriteTo ''expvar'', None),
         (CreateHeader ''pprof/heap'', None), (SourceWriteTo ''pprof/heap'', Some (Err 3))]"
    by code_simp
  note th = C3_first_static_error [OF split before failure]
  have r: "Run failing_heap_runtime ?c = Some (Some (Err 3), add (add_all ?c ?pre) ''pprof/heap'' ?src)"
    by (rule th [THEN conjunct2])
  have c1: "map_option (\<lambda>x. (fst x, calls (snd x))) (Run failing_heap_runtime ?c)
      = Some (Some (Err 3),
        [(CreateHeader ''meta'', None), (SourceWriteTo ''meta'', None),
         (CreateHeader ''expvar'', None), (SourceWriteTo ''expvar'', None),
         (CreateHeader ''pprof/heap'', None), (SourceWriteTo ''pprof/heap'', Some (Err 3))])"
    by (simp only: r option.map fst_conv snd_conv cs)
  show ?thesis
    using split [unfolded opt] c1 by (intro conjI)
qed

text \<open>
  C10. A call of \<open>add\<close> with a nil \<open>DataSource\<close>, or with one whose \<open>WriteTo\<close> is nil,
  returns the collector unchanged: no header is created, nothing is written, no error is
  recorded. In a sequence of additions such a source can be left out without changing the
  result, wherever it stands; the static additions of \<open>Run\<close>, the custom sources among
  them, are such a sequence, so the rest of the run goes on as if the source were not in
  the map.
\<close>

theorem C10_absent_source:
  "add c name None = c
   \<and> add c name (Some \<lparr>WriteTo = None\<rparr>) = c
   \<and> add_all c (pre @ (name, None) # post) = add_all c (pre @ post)
   \<and> add_all c (pre @ (name, Some \<lparr>WriteTo = None\<rparr>) # post) = add_all c (pre @ post)
   \<and> static_phase rt c = add_all c (static_sources rt (opt c))"
  by (simp add: add_absent present_def add_all_append static_phase_add_all)

theorem C10_witness:
  "add (NewCollector nil_custom_options ok_header ok_finish) ''custom/a''
       (lookup_custom (CustomDataSources nil_custom_options) ''a'')
     = NewCollector nil_custom_options ok_header ok_finish
   \<and> map_option fst (Run quiet_runtime (NewCollector nil_custom_options ok_header ok_finish))
       = Some None"
proof -
  have "lookup_custom (CustomDataSources nil_custom_options) ''a'' = Some \<lparr>WriteTo = None\<rparr>"
    by (simp add: nil_custom_options_def lookup_custom_def)
  moreover have "map_option fst (Run quiet_runtime (NewCollector nil_custom_options ok_header ok_finish))
       = Some None"
    using returned_calls [OF nil_custom_run] by auto
  ultimately show ?thesis
    using C10_absent_source [of "NewCollector nil_custom_options ok_header ok_finish" "''custom/a''"]
    by simp
qed

subsection \<open>The result of a time-bounded capture\<close>

text \<open>
  A capture whose pump fails on the first of two writes does not return: the capture is
  left with bytes to write into a pipe that nobody reads. A capture whose pump fails on
  the write of the last bytes returns the error of the copy.
\<close>

lemma first_write_fails_capture:
  "map_option fst
     (addTimeBasedProfile first_write_fails_runtime
        (NewCollector zero_ArchiveOptions ok_header ok_finish)
        ''pprof/profile'' 0 (StartCPUProfile_call first_write_fails_runtime)
        (StopCPUProfile_call first_write_fails_runtime)) = None"
  by code_simp

lemma last_write_fails_capture:
  "map_option (\<lambda>x. (fst x, calls (snd x)))
     (addTimeBasedProfile last_write_fails_runtime
        (NewCollector zero_ArchiveOptions ok_header ok_finish)
        ''pprof/profile'' 0 (StartCPUProfile_call last_write_fails_runtime)
        (StopCPUProfile_call last_write_fails_runtime))
    = Some (Some (Err 8),
        [(StartCPUProfile PipeWriter, None), (CreateHeader ''pprof/profile'', None),
         (StopCPUProfile, None), (PipeClose, None),
         (PumpCopy ''pprof/profile'' None, Some (Err 8))])"
  by code_simp

text \<open>
  C5 (amended). For every time-bounded capture: if the start function returns an error,
  the capture is skipped: \<open>addTimeBasedProfile\<close> returns nil and leaves the collector as
  the start function left it, so no header is created for the name. If the start succeeds
  and the creation of the entry's header fails, \<open>addTimeBasedProfile\<close> returns that error.
  Otherwise, when the pump's copy has read all that the capture wrote into the pipe,
  \<open>addTimeBasedProfile\<close> returns after the stop function and the close of the pipe, and
  the error it returns is the pump's copy error if there is one, else the pipe-close error
  if there is one, else nil.
\<close>

theorem C5_capture_result:
  assumes st: "start PipeWriter c = (serr, c1)"
  shows "(serr \<noteq> None \<longrightarrow>
            addTimeBasedProfile rt c name targetSize start stop = Some (None, c1))
       \<and> (serr = None \<and> writeFileHeader c1 (calls c1) name \<noteq> None \<longrightarrow>
            map_option fst (addTimeBasedProfile rt c name targetSize start stop)
              = Some (writeFileHeader c1 (calls c1) name))
       \<and> (serr = None \<and> writeFileHeader c1 (calls c1) name = None \<longrightarrow>
            (\<forall>copyErr.
               io_Copy (pump_Write rt (calls c1 @ [(CreateHeader name, None)])) []
                 (pipe_Reads rt (calls c1 @ [(CreateHeader name, None)])) = (copyErr, []) \<longrightarrow>
               (\<exists>c3 closeErr w c'.
                   c3 = stop (record_call (CreateHeader name) None c1)
                 \<and> closeErr = pw_Close rt (calls c3)
                 \<and> addTimeBasedProfile rt c name targetSize start stop
                     = Some (if copyErr \<noteq> None then copyErr else closeErr, c')
                 \<and> calls c' = calls c3 @ [(PipeClose, closeErr), (PumpCopy name w, copyErr)])))"
proof -
  have skipped: "serr \<noteq> None \<longrightarrow>
            addTimeBasedProfile rt c name targetSize start stop = Some (None, c1)"
  proof
    assume "serr \<noteq> None"
    then obtain e where "serr = Some e" by auto
    then show "addTimeBasedProfile rt c name targetSize start stop = Some (None, c1)"
      using capture_skipped [of start c e c1 rt name targetSize stop] st by simp
  qed
  have header: "serr = None \<and> writeFileHeader c1 (calls c1) name \<noteq> None \<longrightarrow>
            map_option fst (addTimeBasedProfile rt c name targetSize start stop)
              = Some (writeFileHeader c1 (calls c1) name)"
  proof
    assume a: "serr = None \<and> writeFileHeader c1 (calls c1) name \<noteq> None"
    then obtain e where e: "writeFileHeader c1 (calls c1) name = Some e" by auto
    show "map_option fst (addTimeBasedProfile rt c name targetSize start stop)
              = Some (writeFileHeader c1 (calls c1) name)"
      using capture_header_failed [of start c c1 name e rt targetSize stop] st a e by simp
  qed
  have streamed: "serr = None \<and> writeFileHeader c1 (calls c1) name = None \<longrightarrow>
            (\<forall>copyErr.
               io_Copy (pump_Write rt (calls c1 @ [(CreateHeader name, None)])) []
                 (pipe_Reads rt (calls c1 @ [(CreateHeader name, None)])) = (copyErr, []) \<longrightarrow>
               (\<exists>c3 closeErr w c'.
                   c3 = stop (record_call (CreateHeader name) None c1)
                 \<and> closeErr = pw_Close rt (calls c3)
                 \<and> addTimeBasedProfile rt c name targetSize start stop
                     = Some (if copyErr \<noteq> None then copyErr else closeErr, c')
                 \<and> calls c' = calls c3 @ [(PipeClose, closeErr), (PumpCopy name w, copyErr)]))"
  proof (intro impI allI)
    fix copyErr
    assume a: "serr = None \<and> writeFileHeader c1 (calls c1) name = None"
      and io: "io_Copy (pump_Write rt (calls c1 @ [(CreateHeader name, None)])) []
                 (pipe_Reads rt (calls c1 @ [(CreateHeader name, None)])) = (copyErr, [])"
    define c3 where "c3 = stop (record_call (CreateHeader name) None c1)"
    define closeErr where "closeErr = pw_Close rt (calls c3)"
    define w where "w = (if targetSize > 0 then Some targetSize else None)"
    define c' where "c' = record_call (PumpCopy name w) copyErr (record_call PipeClose closeErr c3)"
    have eq: "addTimeBasedProfile rt c name targetSize start stop
         = Some ((case copyErr of Some e \<Rightarrow> Some e | None \<Rightarrow> closeErr), c')"
      unfolding c'_def w_def
      using st a io by (intro capture_streamed) (simp_all add: c3_def closeErr_def)
    have r: "(case copyErr of Some e \<Rightarrow> Some e | None \<Rightarrow> closeErr)
        = (if copyErr \<noteq> None then copyErr else closeErr)"
      by (simp split: option.splits)
    have cs: "calls c' = calls c3 @ [(PipeClose, closeErr), (PumpCopy name w, copyErr)]"
      by (simp add: c'_def)
    show "\<exists>c3 closeErr w c'.
                   c3 = stop (record_call (CreateHeader name) None c1)
                 \<and> closeErr = pw_Close rt (calls c3)
                 \<and> addTimeBasedProfile rt c name targetSize start stop
                     = Some (if copyErr \<noteq> None then copyErr else closeErr, c')
                 \<and> calls c' = calls c3 @ [(PipeClose, closeErr), (PumpCopy name w, copyErr)]"
      apply (rule exI [of _ c3], rule exI [of _ closeErr], rule exI [of _ w], rule exI [of _ c'])
      using c3_def closeErr_def eq [unfolded r] cs by (intro conjI)
  qed
  show ?thesis
    using skipped header streamed by (intro conjI)
qed

theorem C5_witness:
  "addTimeBasedProfile busy_runtime (NewCollector zero_ArchiveOptions ok_header ok_finish)
      ''pprof/profile'' 0 (StartCPUProfile_call busy_runtime) (StopCPUProfile_call busy_runtime)
     = Some (None, record_call (StartCPUProfile PipeWriter) (Some (Err 5))
               (NewCollector zero_ArchiveOptions ok_header ok_finish))
   \<and> map_option fst (addTimeBasedProfile quiet_runtime
        (NewCollector zero_ArchiveOptions refuse_profile_header ok_finish)
        ''pprof/profile'' 0 (StartCPUProfile_call quiet_runtime) (StopCPUProfile_call quiet_runtime))
     = Some (Some (Err 7))
   \<and> map_option fst (addTimeBasedProfile last_write_fails_runtime
        (NewCollector zero_ArchiveOptions ok_header ok_finish)
        ''pprof/profile'' 0 (StartCPUProfile_call last_write_fails_runtime)
        (StopCPUProfile_call last_write_fails_runtime))
     = Some (Some (Err 8))
   \<and> map_option fst (addTimeBasedProfile quiet_runtime
        (NewCollector zero_ArchiveOptions ok_header ok_finish)
        ''pprof/profile'' 0 (StartCPUProfile_call quiet_runtime) (StopCPUProfile_call quiet_runtime))
     = Some None"
proof -
  let ?c = "NewCollector zero_ArchiveOptions ok_header ok_finish"
  let ?b1 = "record_call (StartCPUProfile PipeWriter) (Some (Err 5)) ?c"
  have st: "StartCPUProfile_call busy_runtime PipeWriter ?c = (Some (Err 5), ?b1)"
    by (simp add: StartCPUProfile_call_eq busy_runtime_def quiet_runtime_def)
  have busy: "addTimeBasedProfile busy_runtime ?c ''pprof/profile'' 0
      (StartCPUProfile_call busy_runtime) (StopCPUProfile_call busy_runtime) = Some (None, ?b1)"
    using C5_capture_result [of "StartCPUProfile_call busy_runtime" ?c "Some (Err 5)" ?b1
        busy_runtime "''pprof/profile''" 0 "StopCPUProfile_call busy_runtime", OF st, THEN conjunct1]
    by simp
  let ?h = "NewCollector zero_ArchiveOptions refuse_profile_header ok_finish"
  let ?h1 = "record_call (StartCPUProfile PipeWriter) None ?h"
  have st2: "StartCPUProfile_call quiet_runtime PipeWriter ?h = (None, ?h1)"
    by (simp add: StartCPUProfile_call_eq quiet_runtime_def)
  have hdr2: "writeFileHeader ?h1 (calls ?h1) ''pprof/profile'' = Some (Err 7)"
    by (simp add: NewCollector_def refuse_profile_header_def)
  have refused: "map_option fst (addTimeBasedProfile quiet_runtime ?h ''pprof/profile'' 0
      (StartCPUProfile_call quiet_runtime) (StopCPUProfile_call quiet_runtime))
     = Some (Some (Err 7))"
    using C5_capture_result [of "StartCPUProfile_call quiet_runtime" ?h None ?h1
        quiet_runtime "''pprof/profile''" 0 "StopCPUProfile_call quiet_runtime", OF st2,
        THEN conjunct2, THEN conjunct1] hdr2
    by simp
  let ?d1 = "record_call (StartCPUProfile PipeWriter) None ?c"
  have st3: "StartCPUProfile_call last_write_fails_runtime PipeWriter ?c = (None, ?d1)"
    by (simp add: StartCPUProfile_call_eq last_write_fails_runtime_def quiet_runtime_def)
  have hdr3: "writeFileHeader ?d1 (calls ?d1) ''pprof/profile'' = None"
    by (simp add: NewCollector_def ok_header_def)
  have io3: "io_Copy (pump_Write last_write_fails_runtime (calls ?d1 @ [(CreateHeader ''pprof/profile'', None)])) []
       (pipe_Reads last_write_fails_runtime (calls ?d1 @ [(CreateHeader ''pprof/profile'', None)]))
      = (Some (Err 8), [])"
    by (simp add: last_write_fails_runtime_def quiet_runtime_def)
  have failed: "map_option fst (addTimeBasedProfile last_write_fails_runtime ?c ''pprof/profile'' 0
      (StartCPUProfile_call last_write_fails_runtime) (StopCPUProfile_call last_write_fails_runtime))
     = Some (Some (Err 8))"
    using C5_capture_result [of "StartCPUProfile_call last_write_fails_runtime" ?c None ?d1
        last_write_fails_runtime "''pprof/profile''" 0 "StopCPUProfile_call last_write_fails_runtime",
        OF st3, THEN conjunct2, THEN conjunct2, THEN mp, OF conjI [OF refl hdr3],
        THEN spec, THEN mp, OF io3]
    by auto
  have st4: "StartCPUProfile_call quiet_runtime PipeWriter ?c = (None, ?d1)"
    by (simp add: StartCPUProfile_call_eq quiet_runtime_def)
  have io4: "io_Copy (pump_Write quiet_runtime (calls ?d1 @ [(CreateHeader ''pprof/profile'', None)])) []
       (pipe_Reads quiet_runtime (calls ?d1 @ [(CreateHeader ''pprof/profile'', None)]))
      = (None, [])"
    by (simp add: quiet_runtime_def)
  have "\<exists>c'. addTimeBasedProfile quiet_runtime ?c ''pprof/profile'' 0
      (StartCPUProfile_call quiet_runtime) (StopCPUProfile_call quiet_runtime)
     = Some (pw_Close quiet_runtime
               (calls (StopCPUProfile_call quiet_runtime (record_call (CreateHeader ''pprof/profile'') None ?d1))), c')"
    using C5_capture_result [of "StartCPUProfile_call quiet_runtime" ?c None ?d1
        quiet_runtime "''pprof/profile''" 0 "StopCPUProfile_call quiet_runtime",
        OF st4, THEN conjunct2, THEN conjunct2, THEN mp, OF conjI [OF refl hdr3],
        THEN spec, THEN mp, OF io4]
    by auto
  then have ok: "map_option fst (addTimeBasedProfile quiet_runtime ?c ''pprof/profile'' 0
      (StartCPUProfile_call quiet_runtime) (StopCPUProfile_call quiet_runtime))
     = Some None"
    by (auto simp: quiet_runtime_def)
  show ?thesis
    using busy refused failed ok by (intro conjI)
qed

theorem C5_counterexample:
  "map_option (\<lambda>x. (fst x, calls (snd x)))
     (addTimeBasedProfile quiet_runtime
        (NewCollector zero_ArchiveOptions refuse_profile_header ok_finish)
        ''pprof/profile'' 0 (StartCPUProfile_call quiet_runtime) (StopCPUProfile_call quiet_runtime))
    = Some (Some (Err 7),
        [(StartCPUProfile PipeWriter, None), (CreateHeader ''pprof/profile'', Some (Err 7))])"
  by code_simp


subsection \<open>The CPU profile that spans the trace\<close>

lemma wrapped_capture_state:
  assumes tr: "addTimeBasedProfile rt (c\<lparr>cpuProfile := None\<rparr>) name t
       (start_with_profile rt) (stop_with_profile rt) = Some (traceErr, c1)"
  shows "\<exists>rest. calls c1
            = calls c @ (StartCPUProfile MemBuffer, pprof_StartCPUProfile rt (calls c) MemBuffer) # rest"
    and "(cpuProfile c1 = None) = (pprof_StartCPUProfile rt (calls c) MemBuffer \<noteq> None)"
    and "writeFileHeader c1 = writeFileHeader c"
proof -
  let ?c0 = "c\<lparr>cpuProfile := None\<rparr>"
  define e1 where "e1 = pprof_StartCPUProfile rt (calls c) MemBuffer"
  define cA where "cA = record_call (StartCPUProfile MemBuffer) e1 ?c0"
  define cB where "cB = (if e1 = None then cA\<lparr>cpuProfile := Some []\<rparr> else cA)"
  define e2 where "e2 = trace_Start rt (calls cB)"
  define cC where "cC = record_call TraceStart e2 cB"
  have st: "start_with_profile rt PipeWriter ?c0 = (e2, cC)"
    by (simp add: start_with_profile_eq Let_def e1_def cA_def cB_def e2_def cC_def)
  have callsC: "calls cC = calls c @ [(StartCPUProfile MemBuffer, e1), (TraceStart, e2)]"
    by (simp add: cC_def cB_def cA_def)
  have cpC: "cpuProfile cC = (if e1 = None then Some [] else None)"
    by (simp add: cC_def cB_def cA_def)
  have wC: "writeFileHeader cC = writeFileHeader c"
    by (simp add: cC_def cB_def cA_def)
  from st tr
  have "(\<exists>rest. calls c1 = calls c @ (StartCPUProfile MemBuffer, e1) # rest)
      \<and> (cpuProfile c1 = None) = (e1 \<noteq> None) \<and> writeFileHeader c1 = writeFileHeader c"
  proof (cases rule: capture_cases)
    case (skipped e)
    then show ?thesis using callsC cpC wC by auto
  next
    case (header_failed e)
    then show ?thesis using callsC cpC wC by auto
  next
    case (streamed copyErr c3 closeErr)
    have c3: "(\<exists>rest. calls c3 = calls c @ (StartCPUProfile MemBuffer, e1) # rest)
        \<and> (cpuProfile c3 = None) = (e1 \<noteq> None) \<and> writeFileHeader c3 = writeFileHeader c"
      using callsC cpC wC
      by (cases e1)
        (simp_all add: streamed(4) stop_with_profile_def trace_Stop_call_def StopCPUProfile_call_def
          Let_def)
    show ?thesis
      using c3 unfolding streamed(7) by auto
  qed
  then show "\<exists>rest. calls c1
            = calls c @ (StartCPUProfile MemBuffer, pprof_StartCPUProfile rt (calls c) MemBuffer) # rest"
    and "(cpuProfile c1 = None) = (pprof_StartCPUProfile rt (calls c) MemBuffer \<noteq> None)"
    and "writeFileHeader c1 = writeFileHeader c"
    unfolding e1_def by simp_all
qed

text \<open>
  C6. In \<open>addExecutionTrace\<close> with a CPU profile duration configured, after the
  engine-level trace capture has returned: if the CPU capture that wraps the trace was
  started, the bytes accumulated in its buffer are written as one more entry (its header is
  created and, unless that fails, the buffer is copied into it), and not otherwise; if it
  could not be started, nothing more is called and no error comes of it; the error
  returned is the trace capture's if it has one, and otherwise the error of writing the
  profile (nil if there is none).
\<close>

theorem C6_profile_during_trace:
  assumes cpu: "0 < CPUProfileDuration (opt c)"
    and tr: "addTimeBasedProfile rt (c\<lparr>cpuProfile := None\<rparr>) name
               (ExecutionTraceByteTarget (opt c)) (start_with_profile rt) (stop_with_profile rt)
             = Some (traceErr, c1)"
  shows "\<exists>started rest r c'.
           addExecutionTrace rt c name profileName = Some (r, c')
         \<and> calls c1 = calls c @ (StartCPUProfile MemBuffer, started) # rest
         \<and> (started \<noteq> None \<longrightarrow> c' = c1 \<and> r = traceErr)
         \<and> (started = None \<longrightarrow>
              (\<exists>buf profileErr.
                  cpuProfile c1 = Some buf
                \<and> (calls c' = calls c1 @ [(CreateHeader profileName, None),
                                          (BufferCopy profileName buf, profileErr)]
                   \<or> profileErr \<noteq> None
                     \<and> calls c' = calls c1 @ [(CreateHeader profileName, profileErr)])
                \<and> r = (if traceErr \<noteq> None then traceErr else profileErr)))"
proof -
  define started where "started = pprof_StartCPUProfile rt (calls c) MemBuffer"
  note ws = wrapped_capture_state [OF tr, folded started_def]
  obtain rest where rest: "calls c1 = calls c @ (StartCPUProfile MemBuffer, started) # rest"
    using ws(1) by blast
  obtain profileErr c2 where wp: "write_profile_during_trace rt c1 profileName = (profileErr, c2)"
    by (metis surj_pair)
  define r where "r = (if traceErr \<noteq> None then traceErr else profileErr)"
  have tr': "addTimeBasedProfile rt (c\<lparr>cpuProfile := None\<rparr>) name (ExecutionTraceByteTarget (opt c))
         (if 0 < CPUProfileDuration (opt c) then start_with_profile rt else trace_Start_call rt)
         (if 0 < CPUProfileDuration (opt c) then stop_with_profile rt else trace_Stop_call rt)
        = Some (traceErr, c1)"
    using tr cpu by simp
  have run: "addExecutionTrace rt c name profileName = Some (r, c2)"
    using addExecutionTrace_eq [OF tr', of profileName] wp by (simp add: r_def)
  have no: "started \<noteq> None \<longrightarrow> c2 = c1 \<and> r = traceErr"
  proof
    assume "started \<noteq> None"
    then have "cpuProfile c1 = None" using ws(2) by simp
    then have "profileErr = None" "c2 = c1"
      using wp by (simp_all add: write_profile_during_trace_def)
    then show "c2 = c1 \<and> r = traceErr" by (simp add: r_def)
  qed
  have yes: "started = None \<longrightarrow>
              (\<exists>buf profileErr.
                  cpuProfile c1 = Some buf
                \<and> (calls c2 = calls c1 @ [(CreateHeader profileName, None),
                                          (BufferCopy profileName buf, profileErr)]
                   \<or> profileErr \<noteq> None
                     \<and> calls c2 = calls c1 @ [(CreateHeader profileName, profileErr)])
                \<and> r = (if traceErr \<noteq> None then traceErr else profileErr))"
  proof
    assume "started = None"
    then obtain buf where buf: "cpuProfile c1 = Some buf" using ws(2) by auto
    have "calls c2 = calls c1 @ [(CreateHeader profileName, None),
                                          (BufferCopy profileName buf, profileErr)]
                   \<or> profileErr \<noteq> None
                     \<and> calls c2 = calls c1 @ [(CreateHeader profileName, profileErr)]"
    proof (cases "writeFileHeader c1 (calls c1) profileName")
      case None
      then show ?thesis
        using wp buf by (auto simp: write_profile_during_trace_def Let_def)
    next
      case (Some e)
      then have "write_profile_during_trace rt c1 profileName
          = (Some e, record_call (CreateHeader profileName) (Some e) c1)"
        using buf by (simp add: write_profile_during_trace_def Let_def)
      then have "profileErr = Some e" "c2 = record_call (CreateHeader profileName) (Some e) c1"
        using wp by simp_all
      then show ?thesis by simp
    qed
    then show "\<exists>buf profileErr.
                  cpuProfile c1 = Some buf
                \<and> (calls c2 = calls c1 @ [(CreateHeader profileName, None),
                                          (BufferCopy profileName buf, profileErr)]
                   \<or> profileErr \<noteq> None
                     \<and> calls c2 = calls c1 @ [(CreateHeader profileName, profileErr)])
                \<and> r = (if traceErr \<noteq> None then traceErr else profileErr)"
      using buf r_def by blast
  qed
  show ?thesis
    apply (rule exI [of _ started], rule exI [of _ rest], rule exI [of _ r], rule exI [of _ c2])
    using run rest no yes by (intro conjI)
qed

lemma full_trace_capture:
  "map_option (\<lambda>x. (fst x, calls (snd x), cpuProfile (snd x)))
     (addTimeBasedProfile quiet_runtime
        ((NewCollector full_options ok_header ok_finish)\<lparr>cpuProfile := None\<rparr>)
        ''pprof/trace'' 10 (start_with_profile quiet_runtime) (stop_with_profile quiet_runtime))
    = Some (None,
        [(StartCPUProfile MemBuffer, None), (TraceStart, None),
         (CreateHeader ''pprof/trace'', None), (TraceStop, None), (StopCPUProfile, None),
         (PipeClose, None), (PumpCopy ''pprof/trace'' (Some 10), None)],
        Some [1, 2, 3])"
  by code_simp

lemma returned_capture:
  "map_option (\<lambda>x. (fst x, calls (snd x), cpuProfile (snd x))) r = Some (e, cs, p) \<Longrightarrow>
     \<exists>c'. r = Some (e, c') \<and> calls c' = cs \<and> cpuProfile c' = p"
  by (cases r) auto

lemma full_trace_run:
  "map_option (\<lambda>x. (fst x, calls (snd x)))
     (addExecutionTrace quiet_runtime (NewCollector full_options ok_header ok_finish)
          ''pprof/trace'' ''pprof/profile-during-trace'')
     = Some (None,
       [(StartCPUProfile MemBuffer, None), (TraceStart, None),
        (CreateHeader ''pprof/trace'', None), (TraceStop, None), (StopCPUProfile, None),
        (PipeClose, None), (PumpCopy ''pprof/trace'' (Some 10), None),
        (CreateHeader ''pprof/profile-during-trace'', None),
        (BufferCopy ''pprof/profile-during-trace'' [1, 2, 3], None)])"
  by code_simp

theorem C6_witness:
  "0 < CPUProfileDuration (opt (NewCollector full_options ok_header ok_finish))
   \<and> (\<exists>c1 c'.
         addTimeBasedProfile quiet_runtime
           ((NewCollector full_options ok_header ok_finish)\<lparr>cpuProfile := None\<rparr>)
           ''pprof/trace'' 10 (start_with_profile quiet_runtime) (stop_with_profile quiet_runtime)
          = Some (None, c1)
       \<and> calls c1 =
           [(StartCPUProfile MemBuffer, None), (TraceStart, None),
            (CreateHeader ''pprof/trace'', None), (TraceStop, None), (StopCPUProfile, None),
            (PipeClose, None), (PumpCopy ''pprof/trace'' (Some 10), None)]
       \<and> cpuProfile c1 = Some [1, 2, 3]
       \<and> addExecutionTrace quiet_runtime (NewCollector full_options ok_header ok_finish)
           ''pprof/trace'' ''pprof/profile-during-trace'' = Some (None, c')
       \<and> calls c' = calls c1 @ [(CreateHeader ''pprof/profile-during-trace'', None),
                                 (BufferCopy ''pprof/profile-during-trace'' [1, 2, 3], None)])"
proof -
  let ?c = "NewCollector full_options ok_header ok_finish"
  have cpu: "0 < CPUProfileDuration (opt ?c)"
    by (simp add: NewCollector_def full_options_def Second_def)
  have tgt: "ExecutionTraceByteTarget (opt ?c) = 10" and c0: "calls ?c = []"
    by (simp_all add: NewCollector_def full_options_def)
  obtain c1 where tr0: "addTimeBasedProfile quiet_runtime (?c\<lparr>cpuProfile := None\<rparr>) ''pprof/trace''
      10 (start_with_profile quiet_runtime) (stop_with_profile quiet_runtime) = Some (None, c1)"
    and cs1: "calls c1 =
           [(StartCPUProfile MemBuffer, None), (TraceStart, None),
            (CreateHeader ''pprof/trace'', None), (TraceStop, None), (StopCPUProfile, None),
            (PipeClose, None), (PumpCopy ''pprof/trace'' (Some 10), None)]"
    and cp1: "cpuProfile c1 = Some [1, 2, 3]"
    using returned_capture [OF full_trace_capture] by (elim exE conjE)
  have tr: "addTimeBasedProfile quiet_runtime (?c\<lparr>cpuProfile := None\<rparr>) ''pprof/trace''
      (ExecutionTraceByteTarget (opt ?c)) (start_with_profile quiet_runtime)
      (stop_with_profile quiet_runtime) = Some (None, c1)"
    unfolding tgt by (rule tr0)
  obtain started rest r c' where
    run: "addExecutionTrace quiet_runtime ?c ''pprof/trace'' ''pprof/profile-during-trace'' = Some (r, c')"
    and sh: "calls c1 = calls ?c @ (StartCPUProfile MemBuffer, started) # rest"
    using C6_profile_during_trace [OF cpu tr, of "''pprof/profile-during-trace''"]
    by (elim exE conjE)
  obtain c'' where run': "addExecutionTrace quiet_runtime ?c ''pprof/trace'' ''pprof/profile-during-trace''
       = Some (None, c'')"
    and cs': "calls c'' = [(StartCPUProfile MemBuffer, None), (TraceStart, None),
        (CreateHeader ''pprof/trace'', None), (TraceStop, None), (StopCPUProfile, None),
        (PipeClose, None), (PumpCopy ''pprof/trace'' (Some 10), None),
        (CreateHeader ''pprof/profile-during-trace'', None),
        (BufferCopy ''pprof/profile-during-trace'' [1, 2, 3], None)]"
    using returned_calls [OF full_trace_run] by (elim exE conjE)
  have same: "r = None" "c' = c''"
    using run run' by simp_all
  have app: "calls c' = calls c1 @ [(CreateHeader ''pprof/profile-during-trace'', None),
                                 (BufferCopy ''pprof/profile-during-trace'' [1, 2, 3], None)]"
    unfolding same(2) cs' cs1 by simp
  have "\<exists>c1 c'.
         addTimeBasedProfile quiet_runtime (?c\<lparr>cpuProfile := None\<rparr>)
           ''pprof/trace'' 10 (start_with_profile quiet_runtime) (stop_with_profile quiet_runtime)
          = Some (None, c1)
       \<and> calls c1 =
           [(StartCPUProfile MemBuffer, None), (TraceStart, None),
            (CreateHeader ''pprof/trace'', None), (TraceStop, None), (StopCPUProfile, None),
            (PipeClose, None), (PumpCopy ''pprof/trace'' (Some 10), None)]
       \<and> cpuProfile c1 = Some [1, 2, 3]
       \<and> addExecutionTrace quiet_runtime ?c ''pprof/trace'' ''pprof/profile-during-trace'' = Some (None, c')
       \<and> calls c' = calls c1 @ [(CreateHeader ''pprof/profile-during-trace'', None),
                                 (BufferCopy ''pprof/profile-during-trace'' [1, 2, 3], None)]"
    apply (rule exI [of _ c1], rule exI [of _ c'])
    using tr0 cs1 cp1 run [unfolded same(1)] app by (intro conjI)
  then show ?thesis
    using cpu by (intro conjI)
qed

section \<open>Properties of the low-latency buffer\<close>

subsection \<open>Paths in the store\<close>

lemma path_None [simp]: "path h None as = (as = [])"
  by (cases as) auto

lemma path_next_cong:
  "\<forall>a\<in>set as. map_option next_link (h' a) = map_option next_link (h a) \<Longrightarrow>
     path h' p as = path h p as"
proof (induction as arbitrary: p)
  case Nil
  then show ?case by simp
next
  case (Cons a as)
  have "map_option next_link (h' a) = map_option next_link (h a)"
    using Cons.prems by simp
  then show ?case
    using Cons.IH Cons.prems by (cases "h a"; cases "h' a") auto
qed

lemma path_defined: "path h p as \<Longrightarrow> a \<in> set as \<Longrightarrow> \<exists>l. h a = Some l"
  by (induction as arbitrary: p) (auto split: option.splits)

lemma path_nonempty: "path h (Some x) as \<Longrightarrow> as \<noteq> []"
  by (cases as) auto

lemma path_snoc:
  assumes "path h p as" and "as \<noteq> []"
    and "\<forall>x\<in>set (butlast as). map_option next_link (h' x) = map_option next_link (h x)"
    and "h' (last as) = Some lt" and "next_link lt = Some a"
    and "h' a = Some la" and "next_link la = None"
  shows "path h' p (as @ [a])"
  using assms
proof (induction as arbitrary: p)
  case Nil
  then show ?case by simp
next
  case (Cons x xs)
  show ?case
  proof (cases "xs = []")
    case True
    then show ?thesis using Cons.prems by (auto split: option.splits)
  next
    case False
    obtain l where l: "h x = Some l" "path h (next_link l) xs"
      using Cons.prems(1) by (auto split: option.splits)
    obtain l' where l': "h' x = Some l'" "next_link l' = next_link l"
      using Cons.prems(3) l(1) False by (cases "h' x") auto
    have "path h' (next_link l) (xs @ [a])"
      using Cons.IH [OF l(2) False] Cons.prems(3-) False by simp
    then show ?thesis
      using Cons.prems(1) l l' by simp
  qed
qed

lemma bodies_cong:
  "\<forall>a\<in>set as. link_body h' a = link_body h a \<Longrightarrow> bodies h' as = bodies h as"
  by (simp add: bodies_def cong: map_cong)

lemma bodies_snoc: "bodies h (as @ [a]) = bodies h as @ link_body h a"
  by (simp add: bodies_def)

lemma bodies_Cons: "bodies h (a # as) = link_body h a @ bodies h as"
  by (simp add: bodies_def)

lemma bodies_Nil [simp]: "bodies h [] = []"
  by (simp add: bodies_def)

subsection \<open>Write\<close>

lemma write_step_chain:
  assumes ch: "chain b as" and ne: "as \<noteq> []" and fl: "filled b (butlast as)"
    and p: "p \<noteq> []"
    and lst: "link_body (links b) (last as) \<noteq> [] \<or> 0 < tail_free b"
  shows "\<exists>b' p' as'. write_step b p = Some (b', p') \<and> chain b' as' \<and> as' \<noteq> []
     \<and> filled b' (butlast as')
     \<and> (link_body (links b') (last as') \<noteq> [] \<or> p' \<noteq> [] \<and> 0 < tail_free b')
     \<and> bodies (links b') as' @ p' = bodies (links b) as @ p
     \<and> head b' = head b \<and> Size b' = Size b"
proof -
  define t where "t = last as"
  have as: "as = butlast as @ [t]" using ne by (simp add: t_def)
  have tl: "tail b = Some t" using ch ne by (simp add: chain_def t_def)
  have pth: "path (links b) (head b) as" and dist: "distinct as"
    and alloc: "\<forall>a\<in>set as. a < allocated b"
    using ch by (simp_all add: chain_def)
  have t_in: "t \<in> set as" using ne by (simp add: t_def)
  have "distinct (butlast as @ [t])" using dist as by simp
  then have t_notin: "t \<notin> set (butlast as)" by simp
  obtain l where l: "links b t = Some l"
    using path_defined [OF pth t_in] by blast
  define n where "n = min (cap l - length (body l)) (length p)"
  show ?thesis
  proof (cases "n = 0")
    case False
    define b' where "b' = b\<lparr>links := (links b)(t \<mapsto> l\<lparr>body := body l @ take n p\<rparr>)\<rparr>"
    have step: "write_step b p = Some (b', drop n p)"
      using False by (simp add: write_step_def tl l n_def [symmetric] Let_def b'_def)
    have fields: "head b' = head b" "tail b' = tail b" "allocated b' = allocated b"
      "Size b' = Size b"
      by (simp_all add: b'_def)
    have nx: "\<forall>a\<in>set as. map_option next_link (links b' a) = map_option next_link (links b a)"
      using l by (simp add: b'_def)
    have "path (links b') (head b) as"
      using path_next_cong [OF nx, of "head b"] pth by simp
    then have ch': "chain b' as"
      using ch unfolding chain_def fields by simp
    have same: "\<forall>a\<in>set (butlast as). link_body (links b') a = link_body (links b) a"
      using t_notin by (auto simp: b'_def link_body_def)
    have fl': "filled b' (butlast as)"
      using fl same by (simp add: filled_def)
    have tk: "take n p \<noteq> []" using False p by simp
    have lb: "link_body (links b') t = link_body (links b) t @ take n p"
      by (simp add: b'_def link_body_def l)
    have "bodies (links b') as = bodies (links b) (butlast as) @ link_body (links b) t @ take n p"
      using bodies_snoc [of "links b'" "butlast as" t] as bodies_cong [OF same] lb by simp
    moreover have "bodies (links b) as = bodies (links b) (butlast as) @ link_body (links b) t"
      using bodies_snoc [of "links b" "butlast as" t] as by simp
    ultimately have bd: "bodies (links b') as @ drop n p = bodies (links b) as @ p"
      by simp
    have "link_body (links b') (last as) \<noteq> []"
      using lb tk by (simp add: t_def)
    then show ?thesis
      using step ch' ne fl' bd fields(1,4)
      by (intro exI [of _ b'] exI [of _ "drop n p"] exI [of _ as]) simp
  next
    case True
    have full: "cap l - length (body l) = 0"
      using True p by (auto simp: n_def min_def split: if_splits)
    have "tail_free b = 0"
      by (simp add: tail_free_def tl l full)
    then have old: "link_body (links b) t \<noteq> []"
      using lst by (simp add: t_def)
    define a where "a = allocated b"
    have a_notin: "a \<notin> set as" using alloc by (auto simp: a_def)
    have at: "a \<noteq> t" using a_notin t_in by auto
    define sz where "sz = (if Size b \<le> 0 then defaultSize else Size b)"
    have sz: "0 < sz" by (simp add: sz_def defaultSize_def)
    define la where "la = \<lparr>next_link = None, body = [], cap = nat sz\<rparr>"
    define h' where "h' = (links b)(t \<mapsto> l, a \<mapsto> la, t \<mapsto> l\<lparr>next_link := Some a\<rparr>)"
    define b' where "b' = b\<lparr>links := h', allocated := Suc a, tail := Some a\<rparr>"
    have step: "write_step b p = Some (b', p)"
      using True at
      by (simp add: write_step_def tl l n_def [symmetric] Let_def newLink_def a_def [symmetric]
          sz_def [symmetric] la_def [symmetric] b'_def h'_def)
    have h't: "h' t = Some (l\<lparr>next_link := Some a\<rparr>)" and h'a: "h' a = Some la"
      using at by (simp_all add: h'_def)
    have h'o: "\<And>x. x \<noteq> t \<Longrightarrow> x \<noteq> a \<Longrightarrow> h' x = links b x"
      by (simp add: h'_def)
    have nx: "\<forall>x\<in>set (butlast as). map_option next_link (h' x) = map_option next_link (links b x)"
      using t_notin a_notin h'o by (metis in_set_butlastD)
    have pth': "path h' (head b) (as @ [a])"
      using path_snoc [OF pth ne nx, of "l\<lparr>next_link := Some a\<rparr>" a la] h't h'a
      by (simp add: t_def la_def)
    have fields: "head b' = head b" "tail b' = Some a" "allocated b' = Suc a"
      "Size b' = Size b" "links b' = h'"
      by (simp_all add: b'_def)
    have ch': "chain b' (as @ [a])"
      unfolding chain_def fields using pth' dist a_notin alloc by (auto simp: a_def)
    have same: "\<forall>x\<in>set as. link_body h' x = link_body (links b) x"
    proof
      fix x assume x: "x \<in> set as"
      show "link_body h' x = link_body (links b) x"
      proof (cases "x = t")
        case True
        then show ?thesis by (simp add: link_body_def h't l)
      next
        case False
        moreover have "x \<noteq> a" using x a_notin by auto
        ultimately have "h' x = links b x" by (rule h'o)
        then show ?thesis by (simp add: link_body_def)
      qed
    qed
    have "set as = insert t (set (butlast as))"
      using as by (metis list.simps(15) rotate1.simps(2) set_rotate1)
    then have fl_as: "filled b as"
      using fl old by (simp add: filled_def)
    have fl': "filled b' (butlast (as @ [a]))"
      using fl_as same by (simp add: filled_def fields)
    have free: "0 < tail_free b'"
      using sz by (simp add: tail_free_def fields h'a la_def)
    have bd: "bodies (links b') (as @ [a]) @ p = bodies (links b) as @ p"
      using bodies_cong [OF same] by (simp add: bodies_snoc fields link_body_def h'a la_def)
    show ?thesis
      using step ch' fl' free p bd fields(1,4)
      by (intro exI [of _ b'] exI [of _ p] exI [of _ "as @ [a]"]) simp
  qed
qed


lemma write_loop_chain:
  assumes "chain b as" and "as \<noteq> []" and "filled b (butlast as)"
    and "link_body (links b) (last as) \<noteq> [] \<or> p \<noteq> [] \<and> 0 < tail_free b"
  shows "\<exists>b' as'. write_loop b p = Some b' \<and> chain b' as' \<and> filled b' as'
     \<and> bodies (links b') as' = bodies (links b) as @ p
     \<and> head b' = head b \<and> Size b' = Size b"
  using assms
proof (induction b p arbitrary: as rule: write_loop.induct)
  case (1 b p)
  show ?case
  proof (cases "p = []")
    case True
    have "set as = insert (last as) (set (butlast as))"
      using "1.prems"(2) by (metis append_butlast_last_id list.simps(15) rotate1.simps(2) set_rotate1)
    then have "filled b as"
      using "1.prems"(3,4) True by (simp add: filled_def)
    then show ?thesis
      using True "1.prems"(1) by (intro exI [of _ b] exI [of _ as]) (simp add: write_loop.simps)
  next
    case False
    have lst: "link_body (links b) (last as) \<noteq> [] \<or> 0 < tail_free b"
      using "1.prems"(4) by auto
    obtain b1 p1 as1 where st: "write_step b p = Some (b1, p1)" "chain b1 as1" "as1 \<noteq> []"
      "filled b1 (butlast as1)"
      "link_body (links b1) (last as1) \<noteq> [] \<or> p1 \<noteq> [] \<and> 0 < tail_free b1"
      "bodies (links b1) as1 @ p1 = bodies (links b) as @ p"
      "head b1 = head b" "Size b1 = Size b"
      using write_step_chain [OF "1.prems"(1,2,3) False lst] by blast
    obtain b' as' where ih: "write_loop b1 p1 = Some b'" "chain b' as'" "filled b' as'"
      "bodies (links b') as' = bodies (links b1) as1 @ p1"
      "head b' = head b1" "Size b' = Size b1"
      using "1.IH" [OF False st(1) refl st(2,3,4,5)] by blast
    have "write_loop b p = Some b'"
      using False st(1) ih(1) by (simp add: write_loop.simps [of b p])
    then show ?thesis
      using ih st(6,7,8) by (intro exI [of _ b'] exI [of _ as']) simp
  qed
qed

lemma Write_chain:
  assumes ch: "chain b as" and fl: "filled b as"
  shows "\<exists>b' as'. Write b p = Some (length p, b') \<and> chain b' as' \<and> filled b' as'
     \<and> bodies (links b') as' = bodies (links b) as @ p \<and> Size b' = Size b"
proof (cases "p = []")
  case True
  then have "Write b p = Some (length p, b)"
    by (simp add: Write_def write_loop.simps)
  then show ?thesis
    using ch fl True by (intro exI [of _ b] exI [of _ as]) simp
next
  case False
  note p = this
  show ?thesis
  proof (cases "head b")
    case None
    then have as: "as = []" using ch by (simp add: chain_def)
    define a where "a = allocated b"
    define sz where "sz = (if Size b \<le> 0 then defaultSize else Size b)"
    have sz: "0 < sz" by (simp add: sz_def defaultSize_def)
    define la where "la = \<lparr>next_link = None, body = [], cap = nat sz\<rparr>"
    define b1 where "b1 = b\<lparr>links := (links b)(a \<mapsto> la), allocated := Suc a, tail := Some a,
      head := Some a\<rparr>"
    have w: "Write b p = (case write_loop b1 p of None \<Rightarrow> None | Some b2 \<Rightarrow> Some (length p, b2))"
      using p None
      by (simp add: Write_def Let_def newLink_def a_def [symmetric] sz_def [symmetric]
          la_def [symmetric] b1_def)
    have fields: "head b1 = Some a" "tail b1 = Some a" "allocated b1 = Suc a" "Size b1 = Size b"
      "links b1 a = Some la"
      by (simp_all add: b1_def)
    have ch1: "chain b1 [a]"
      unfolding chain_def fields by (simp add: fields la_def)
    have fl1: "filled b1 (butlast [a])"
      by (simp add: filled_def)
    have free: "0 < tail_free b1"
      using sz by (simp add: tail_free_def fields la_def)
    obtain b' as' where r: "write_loop b1 p = Some b'" "chain b' as'" "filled b' as'"
      "bodies (links b') as' = bodies (links b1) [a] @ p" "Size b' = Size b1"
      using write_loop_chain [OF ch1 _ fl1, of p] p free by auto
    have "bodies (links b1) [a] = []"
      by (simp add: bodies_def link_body_def fields la_def)
    then show ?thesis
      using w r as fields(4) by (intro exI [of _ b'] exI [of _ as']) simp
  next
    case (Some x)
    then have ne: "as \<noteq> []"
      using ch path_nonempty [of "links b" x as] by (simp add: chain_def)
    have w: "Write b p = (case write_loop b p of None \<Rightarrow> None | Some b2 \<Rightarrow> Some (length p, b2))"
      using Some by (simp add: Write_def Let_def)
    have fb: "filled b (butlast as)" and lst: "link_body (links b) (last as) \<noteq> []"
      using fl ne by (auto simp: filled_def dest: in_set_butlastD)
    obtain b' as' where r: "write_loop b p = Some b'" "chain b' as'" "filled b' as'"
      "bodies (links b') as' = bodies (links b) as @ p" "Size b' = Size b"
      using write_loop_chain [OF ch ne fb, of p] lst by auto
    then show ?thesis
      using w by (intro exI [of _ b'] exI [of _ as']) simp
  qed
qed

lemma Writes_chain:
  assumes "chain b as" and "filled b as"
  shows "\<exists>b' as'. Writes b ws = Some b' \<and> chain b' as' \<and> filled b' as'
     \<and> bodies (links b') as' = bodies (links b) as @ concat ws"
  using assms
proof (induction ws arbitrary: b as)
  case Nil
  then show ?case by auto
next
  case (Cons p ps)
  obtain b1 as1 where w: "Write b p = Some (length p, b1)" "chain b1 as1" "filled b1 as1"
    "bodies (links b1) as1 = bodies (links b) as @ p"
    using Write_chain [OF Cons.prems, of p] by blast
  obtain b' as' where r: "Writes b1 ps = Some b'" "chain b' as'" "filled b' as'"
    "bodies (links b') as' = bodies (links b1) as1 @ concat ps"
    using Cons.IH [OF w(2,3)] by blast
  show ?case
    using w r by (intro exI [of _ b'] exI [of _ as']) simp
qed


subsection \<open>Read\<close>

lemma Read_chain:
  assumes ch: "chain b as" and fl: "filled b as"
  shows "\<exists>data eof b' as'. Read b m = Some (data, eof, b') \<and> chain b' as' \<and> filled b' as'
     \<and> data @ bodies (links b') as' = bodies (links b) as
     \<and> (eof \<longrightarrow> as' = [] \<and> data = [])
     \<and> (\<not> eof \<and> 0 < m \<longrightarrow> data \<noteq> [])"
proof (cases as)
  case Nil
  then have "head b = None" using ch by (simp add: chain_def)
  then have "Read b m = Some ([], True, b)" by (simp add: Read_def)
  then show ?thesis
    using ch fl Nil by (intro exI [of _ "[]"] exI [of _ True] exI [of _ b] exI [of _ "[]"]) simp
next
  case (Cons h rest)
  have hd: "head b = Some h" and dist: "distinct (h # rest)"
    and alloc: "\<forall>a\<in>set (h # rest). a < allocated b"
    and pth: "path (links b) (Some h) (h # rest)"
    using ch Cons by (auto simp: chain_def)
  obtain l where l: "links b h = Some l" and rest: "path (links b) (next_link l) rest"
    using pth by (auto split: option.splits)
  have hn: "h \<notin> set rest" using dist by simp
  have body: "body l \<noteq> []"
    using fl Cons l by (simp add: filled_def link_body_def)
  define n where "n = min m (length (body l))"
  define l1 where "l1 = l\<lparr>body := drop n (body l), cap := cap l - n\<rparr>"
  define b1 where "b1 = b\<lparr>links := (links b)(h \<mapsto> l1)\<rparr>"
  have f1: "head b1 = head b" "tail b1 = tail b" "allocated b1 = allocated b"
    "links b1 h = Some l1" "\<And>x. x \<noteq> h \<Longrightarrow> links b1 x = links b x"
    by (simp_all add: b1_def)
  have nx: "\<forall>a\<in>set (h # rest). map_option next_link (links b1 a) = map_option next_link (links b a)"
  proof
    fix a assume a: "a \<in> set (h # rest)"
    show "map_option next_link (links b1 a) = map_option next_link (links b a)"
    proof (cases "a = h")
      case True
      then show ?thesis by (simp add: f1(4) l l1_def)
    next
      case False
      then show ?thesis by (simp add: f1(5))
    qed
  qed
  have same: "\<forall>a\<in>set rest. link_body (links b1) a = link_body (links b) a"
  proof
    fix a assume "a \<in> set rest"
    then have "a \<noteq> h" using hn by auto
    then have "links b1 a = links b a" by (rule f1(5))
    then show "link_body (links b1) a = link_body (links b) a"
      by (simp add: link_body_def)
  qed
  have data: "0 < m \<longrightarrow> take n (body l) \<noteq> []"
    using body by (auto simp: n_def)
  have whole: "bodies (links b) as = body l @ bodies (links b) rest"
    by (simp add: Cons bodies_Cons link_body_def l)
  show ?thesis
  proof (cases "drop n (body l) = []")
    case True
    define b2 where "b2 = b1\<lparr>head := next_link l\<rparr>"
    have r: "Read b m = Some (take n (body l), False, b2)"
      using True unfolding b2_def b1_def l1_def n_def
      by (simp add: Read_def hd l Let_def)
    have f2: "head b2 = next_link l" "tail b2 = tail b" "allocated b2 = allocated b"
      "links b2 = links b1"
      by (simp_all add: b2_def f1)
    have "path (links b1) (next_link l) rest"
      using path_next_cong [of rest "links b1" "links b" "next_link l"] nx rest by simp
    then have ch2: "chain b2 rest"
      unfolding chain_def f2 using dist alloc ch Cons by (auto simp: chain_def)
    have fl2: "filled b2 rest"
      using fl same Cons by (simp add: filled_def f2)
    have "take n (body l) = body l" using True by simp
    then have "take n (body l) @ bodies (links b2) rest = bodies (links b) as"
      using bodies_cong [OF same] whole by (simp add: f2)
    then show ?thesis
      using r ch2 fl2 data
      by (intro exI [of _ "take n (body l)"] exI [of _ False] exI [of _ b2] exI [of _ rest]) simp
  next
    case False
    have r: "Read b m = Some (take n (body l), False, b1)"
      using False unfolding b1_def l1_def n_def
      by (simp add: Read_def hd l Let_def)
    have "path (links b1) (head b) as"
      using path_next_cong [of as "links b1" "links b" "head b"] nx ch Cons
      by (simp add: chain_def)
    then have ch1: "chain b1 as"
      using ch unfolding chain_def f1 by simp
    have lb: "link_body (links b1) h = drop n (body l)"
      by (simp add: link_body_def f1 l1_def)
    have fl1: "filled b1 as"
      using fl same False lb Cons by (simp add: filled_def)
    have "bodies (links b1) as = drop n (body l) @ bodies (links b) rest"
      using bodies_cong [OF same] lb by (simp add: Cons bodies_Cons)
    then have "take n (body l) @ bodies (links b1) as = bodies (links b) as"
      using whole by simp
    then show ?thesis
      using r ch1 fl1 data
      by (intro exI [of _ "take n (body l)"] exI [of _ False] exI [of _ b1] exI [of _ as]) simp
  qed
qed

lemma read_until_EOF_chain:
  assumes "chain b as" and "filled b as"
  shows "\<exists>out eof b' as'. read_until_EOF b ms = Some (out, eof, b')
     \<and> out @ bodies (links b') as' = bodies (links b) as
     \<and> (eof \<longrightarrow> as' = [])
     \<and> ((\<forall>m\<in>set ms. 0 < m) \<and> length (bodies (links b) as) < length ms \<longrightarrow> eof)"
  using assms
proof (induction ms arbitrary: b as)
  case Nil
  then show ?case by auto
next
  case (Cons m ms)
  obtain data eof1 b1 as1 where r: "Read b m = Some (data, eof1, b1)" "chain b1 as1"
    "filled b1 as1" "data @ bodies (links b1) as1 = bodies (links b) as"
    "eof1 \<longrightarrow> as1 = [] \<and> data = []" "\<not> eof1 \<and> 0 < m \<longrightarrow> data \<noteq> []"
    using Read_chain [OF Cons.prems, of m] by blast
  show ?case
  proof (cases eof1)
    case True
    then show ?thesis
      using r by (intro exI [of _ "[]"] exI [of _ True] exI [of _ b1] exI [of _ as1]) simp
  next
    case False
    obtain out e b2 as2 where ih: "read_until_EOF b1 ms = Some (out, e, b2)"
      "out @ bodies (links b2) as2 = bodies (links b1) as1"
      "e \<longrightarrow> as2 = []"
      "(\<forall>m\<in>set ms. 0 < m) \<and> length (bodies (links b1) as1) < length ms \<longrightarrow> e"
      using Cons.IH [OF r(2,3)] by blast
    have run: "read_until_EOF b (m # ms) = Some (data @ out, e, b2)"
      using r(1) ih(1) False by simp
    have len: "length (bodies (links b) as) = length data + length (bodies (links b1) as1)"
      using r(4) by (metis length_append)
    have bound: "(\<forall>m\<in>set (m # ms). 0 < m) \<and> length (bodies (links b) as) < length (m # ms)
        \<longrightarrow> e"
    proof
      assume a: "(\<forall>m\<in>set (m # ms). 0 < m) \<and> length (bodies (links b) as) < length (m # ms)"
      then have "data \<noteq> []" using r(6) False by simp
      then have d: "1 \<le> length data" by (cases data) simp_all
      have "length (bodies (links b) as) < Suc (length ms)" using a by simp
      then have "length (bodies (links b1) as1) < length ms" using d len by linarith
      then show e using ih(4) a by simp
    qed
    have "(data @ out) @ bodies (links b2) as2 = bodies (links b) as"
      using ih(2) r(4) by simp
    then show ?thesis
      using run ih(3) bound
      by (intro exI [of _ "data @ out"] exI [of _ e] exI [of _ b2] exI [of _ as2]) blast
  qed
qed

text \<open>
  C7. For every \<open>linkedListBuffer\<close> as it is created, with any \<open>Size\<close> (zero and negative
  ones fall back to the default capacity), and for every sequence of writes: every
  \<open>Write\<close> returns, and for every sequence of reads that follows, into slices of any
  lengths, every \<open>Read\<close> returns and, once a \<open>Read\<close> has returned \<open>io.EOF\<close>, the
  concatenation of the bytes returned by the reads is the concatenation of the bytes
  passed to the writes, in the same order. \<open>io.EOF\<close> is reached by any sequence of reads
  into non-empty slices that is longer than the number of bytes written. The first link
  of the buffer has the capacity \<open>Size\<close>, or the default of 16384 bytes when \<open>Size\<close> is
  zero or negative.
\<close>

theorem C7_write_then_read:
  "links (snd (newLink (new_linkedListBuffer sz))) 0
     = Some \<lparr>next_link = None, body = [], cap = (if sz \<le> 0 then 16384 else nat sz)\<rparr>
   \<and> (\<exists>b. Writes (new_linkedListBuffer sz) ws = Some b
     \<and> (\<forall>ms. \<exists>out eof b'. read_until_EOF b ms = Some (out, eof, b')
            \<and> (eof \<longrightarrow> out = concat ws)
            \<and> ((\<forall>m\<in>set ms. 0 < m) \<and> length (concat ws) < length ms \<longrightarrow> eof)))"
proof -
  have capacity: "links (snd (newLink (new_linkedListBuffer sz))) 0
     = Some \<lparr>next_link = None, body = [], cap = (if sz \<le> 0 then 16384 else nat sz)\<rparr>"
    by (simp add: newLink_def new_linkedListBuffer_def defaultSize_def Let_def)
  let ?b0 = "new_linkedListBuffer sz"
  have ch0: "chain ?b0 []" and fl0: "filled ?b0 []"
    by (simp_all add: chain_def filled_def new_linkedListBuffer_def)
  obtain b as where w: "Writes ?b0 ws = Some b" "chain b as" "filled b as"
    "bodies (links b) as = bodies (links ?b0) [] @ concat ws"
    using Writes_chain [OF ch0 fl0, of ws] by blast
  have content: "bodies (links b) as = concat ws"
    using w(4) by simp
  have "\<exists>out eof b'. read_until_EOF b ms = Some (out, eof, b')
            \<and> (eof \<longrightarrow> out = concat ws)
            \<and> ((\<forall>m\<in>set ms. 0 < m) \<and> length (concat ws) < length ms \<longrightarrow> eof)" for ms
  proof -
    obtain out eof b' as' where r: "read_until_EOF b ms = Some (out, eof, b')"
      "out @ bodies (links b') as' = concat ws" "eof \<longrightarrow> as' = []"
      "(\<forall>m\<in>set ms. 0 < m) \<and> length (concat ws) < length ms \<longrightarrow> eof"
      using read_until_EOF_chain [OF w(2,3), of ms] unfolding content by blast
    have "eof \<longrightarrow> out = concat ws"
      using r(2,3) by auto
    then show ?thesis
      using r(1,4) by blast
  qed
  then have "\<exists>b. Writes (new_linkedListBuffer sz) ws = Some b
     \<and> (\<forall>ms. \<exists>out eof b'. read_until_EOF b ms = Some (out, eof, b')
            \<and> (eof \<longrightarrow> out = concat ws)
            \<and> ((\<forall>m\<in>set ms. 0 < m) \<and> length (concat ws) < length ms \<longrightarrow> eof))"
    using w(1) by blast
  then show ?thesis
    using capacity by (rule conjI [rotated])
qed

theorem C7_witness:
  "\<exists>b b'. Writes (new_linkedListBuffer 0) sample_writes = Some b
     \<and> read_until_EOF b (replicate 9 4) = Some ([1, 2, 3, 4, 5, 6, 7, 8], True, b')"
proof -
  obtain b where w: "Writes (new_linkedListBuffer 0) sample_writes = Some b"
    and r: "\<forall>ms. \<exists>out eof b'. read_until_EOF b ms = Some (out, eof, b')
            \<and> (eof \<longrightarrow> out = concat sample_writes)
            \<and> ((\<forall>m\<in>set ms. 0 < m) \<and> length (concat sample_writes) < length ms \<longrightarrow> eof)"
    using C7_write_then_read [of 0 sample_writes, THEN conjunct2] by blast
  let ?ms = "replicate 9 (4::nat)"
  obtain out eof b' where o: "read_until_EOF b ?ms = Some (out, eof, b')"
    "eof \<longrightarrow> out = concat sample_writes"
    "(\<forall>m\<in>set ?ms. 0 < m) \<and> length (concat sample_writes) < length ?ms \<longrightarrow> eof"
    using r by blast
  have eof: eof
    using o(3) by (simp add: sample_writes_def)
  then have "out = [1, 2, 3, 4, 5, 6, 7, 8]"
    using o(2) by (simp add: sample_writes_def)
  then show ?thesis
    using w o(1) eof by (intro exI [of _ b] exI [of _ b']) simp
qed

section \<open>Properties of the duration parameters\<close>

lemma TrimSuffix_s:
  "HasSuffix s ''s'' \<Longrightarrow> TrimSuffix s ''s'' = butlast s \<and> butlast s \<noteq> s"
proof -
  assume a: "HasSuffix s ''s''"
  then have ne: "s \<noteq> []"
    by (auto simp: HasSuffix_def)
  then have "length (butlast s) \<noteq> length s"
    by (cases s) simp_all
  then have "butlast s \<noteq> s"
    by metis
  then show ?thesis
    using a by (simp add: TrimSuffix_def butlast_conv_take)
qed

lemma TrimSuffix_none: "\<not> HasSuffix s ''s'' \<Longrightarrow> TrimSuffix s ''s'' = s"
  by (simp add: TrimSuffix_def)

lemma HasSuffix_append [simp]: "HasSuffix (seconds @ ''s'') ''s''"
  by (simp add: HasSuffix_def)

text \<open>
  C8. \<open>parseWaitDuration\<close> returns zero for a string that does not end in \<open>s\<close>, for one
  whose part before the \<open>s\<close> \<open>strconv.ParseFloat\<close> rejects, and for one whose value is
  below zero. For every other string it returns the conversion to a \<open>time.Duration\<close> of
  the value times one second, whatever the value is: a value that is not a number, or one
  whose product with \<open>time.Second\<close> is out of the range of \<open>int64\<close>, is converted like any
  other, and nothing makes the result of that conversion zero or keeps it from being
  negative. The comment of the function says that it returns a non-negative duration, and
  zero if the input is invalid.
\<close>

theorem C8_parseWaitDuration:
  "parseWaitDuration fl s =
     (if HasSuffix s ''s'' \<and> snd (ParseFloat fl (butlast s)) = None
          \<and> \<not> less_zero fl (fst (ParseFloat fl (butlast s)))
      then seconds_Duration fl (fst (ParseFloat fl (butlast s)))
      else 0)"
proof (cases "HasSuffix s ''s''")
  case True
  note t = TrimSuffix_s [OF True]
  show ?thesis
    using True t [THEN conjunct2]
    by (simp add: parseWaitDuration_def Let_def t [THEN conjunct1] split: prod.splits)
next
  case False
  then show ?thesis
    by (simp add: parseWaitDuration_def Let_def TrimSuffix_none)
qed

theorem C8_witness:
  "parseWaitDuration go_amd64 ''NaNs'' = - 9223372036854775808
   \<and> parseWaitDuration go_amd64 ''Infs'' = - 9223372036854775808
   \<and> parseWaitDuration go_amd64 ''1e10s'' = - 9223372036854775808
   \<and> parseWaitDuration go_amd64 ''1s'' = Second
   \<and> parseWaitDuration go_amd64 ''-1s'' = 0
   \<and> parseWaitDuration go_amd64 ''1'' = 0
   \<and> parseWaitDuration go_amd64 ''1ms'' = 0"
  using C8_parseWaitDuration [of go_amd64 "''NaNs''"]
    C8_parseWaitDuration [of go_amd64 "''Infs''"]
    C8_parseWaitDuration [of go_amd64 "''1e10s''"]
    C8_parseWaitDuration [of go_amd64 "''1s''"]
    C8_parseWaitDuration [of go_amd64 "''-1s''"]
    C8_parseWaitDuration [of go_amd64 "''1''"]
    C8_parseWaitDuration [of go_amd64 "''1ms''"]
  by (simp add: go_amd64_def HasSuffix_def sample_ParseFloat_def sample_less_zero_def
      amd64_Duration_def Second_def)

end
